theory Spec2Isabelle
  imports Main "HOL-Library.Multiset" "HOL-Library.List_Lexorder" "HOL-Library.Char_ord"
begin

section \<open>Python values, exceptions and the Song class\<close>

text \<open>
  The exceptions the modelled code paths can raise. \<open>ValueNotStored\<close> is the plain
  \<^verbatim>\<open>Exception("Value not stored in tree")\<close> of \<^verbatim>\<open>AVLTree.delete\<close>; \<open>RecursionError\<close> is
  what the interpreter raises when a recursion exceeds its depth limit.
\<close>

datatype error = TypeError | AttributeError | IndexError | KeyError | ValueError
  | RecursionError | ValueNotStored

text \<open>
  An operation on a tree either returns or raises; either way it leaves a tree behind.
  For a raise the tree is the one at the moment the exception propagates.
\<close>

datatype 'a outcome = Returned 'a | Raised error 'a

text \<open>
  The attribute values a Song holds: strings (title, artist, album, genre) and
  integers (playtime). Python orders two strings lexicographically by code point and
  two integers numerically; an ordering comparison between a string and an integer
  raises TypeError, and \<^verbatim>\<open>==\<close> between them is False.
\<close>

datatype pyval = PStr string | PInt int

fun py_lt :: "pyval \<Rightarrow> pyval \<Rightarrow> error + bool" where
  "py_lt (PStr a) (PStr b) = Inr (a < b)"
| "py_lt (PInt a) (PInt b) = Inr (a < b)"
| "py_lt _ _ = Inl TypeError"





text \<open>
  \<^verbatim>\<open>Song.set_key\<close> accepts exactly five attribute names, and every constructor call of
  the program passes one of them (or the default \<^verbatim>\<open>"title"\<close>), so the \<^verbatim>\<open>key\<close>
  attribute is modelled by a five-valued type.
\<close>

datatype attr = Title | Artist | Album | Genre | Playtime

record Song =
  title :: pyval
  artist :: pyval
  album :: pyval
  genre :: pyval
  playtime :: pyval
  key :: attr

fun getattr :: "Song \<Rightarrow> attr \<Rightarrow> pyval" where
  "getattr s Title = title s"
| "getattr s Artist = artist s"
| "getattr s Album = album s"
| "getattr s Genre = genre s"
| "getattr s Playtime = playtime s"

definition attr_of_name :: "string \<Rightarrow> attr option" where
  "attr_of_name n =
     (if n = ''title'' then Some Title
      else if n = ''artist'' then Some Artist
      else if n = ''album'' then Some Album
      else if n = ''genre'' then Some Genre
      else if n = ''playtime'' then Some Playtime
      else None)"

definition set_key :: "string \<Rightarrow> Song \<Rightarrow> error + Song" where
  "set_key n s = (case attr_of_name n of None \<Rightarrow> Inl ValueError | Some a \<Rightarrow> Inr (s\<lparr>key := a\<rparr>))"

text \<open>\<^verbatim>\<open>Song(title, artist, album, genre, playtime=0, key="title")\<close>.\<close>

definition mk_song :: "pyval \<Rightarrow> pyval \<Rightarrow> pyval \<Rightarrow> pyval \<Rightarrow> pyval \<Rightarrow> Song" where
  "mk_song t a al g p = \<lparr>title = t, artist = a, album = al, genre = g, playtime = p, key = Title\<rparr>"

text \<open>\<^verbatim>\<open>Song(title, "", "", "")\<close>, the probe built by the tree searches and by delete.\<close>

definition probe :: "pyval \<Rightarrow> Song" where
  "probe t = mk_song t (PStr '''') (PStr '''') (PStr '''') (PInt 0)"

text \<open>The rich comparisons: each looks up, on each side, the attribute that side's key names.\<close>

definition song_lt :: "Song \<Rightarrow> Song \<Rightarrow> error + bool" where
  "song_lt s other = py_lt (getattr s (key s)) (getattr other (key other))"





text \<open>
  The value a Song is compared by: the attribute its own key names.
\<close>

definition skey :: "Song \<Rightarrow> pyval" where
  "skey s = getattr s (key s)"

text \<open>
  The algorithms below are written against a projection \<open>k\<close> of the elements into a
  linear order: they are the code run on elements whose comparisons always return, and
  return what the order of the projected values says. Songs are such elements as long as
  the values they are compared by are all strings (lemma \<open>song_cmp_text\<close>); \<open>text_key\<close> is
  the projection for them. \<open>text_of\<close> has no equation for an integer: nothing is said
  through it about a Song compared by an integer. The functions that work on the Songs
  of a playlist, whatever their values are, are written with the comparisons of Songs
  themselves further down, TypeError included.
\<close>

fun is_text :: "pyval \<Rightarrow> bool" where
  "is_text (PStr a) = True"
| "is_text (PInt i) = False"

fun text_of :: "pyval \<Rightarrow> string" where
  "text_of (PStr a) = a"

definition text_key :: "Song \<Rightarrow> string" where
  "text_key s = text_of (skey s)"



section \<open>Search strategies on lists\<close>

text \<open>
  \<^verbatim>\<open>songs[i]\<close>: a negative index counts from the end, an index out of range raises
  IndexError.
\<close>

definition py_index :: "'a list \<Rightarrow> int \<Rightarrow> error + 'a" where
  "py_index xs i =
     (if 0 \<le> i \<and> i < int (length xs) then Inr (xs ! nat i)
      else if i < 0 \<and> - int (length xs) \<le> i then Inr (xs ! nat (int (length xs) + i))
      else Inl IndexError)"

lemma py_index_Nil [simp]: "py_index [] i = Inl IndexError"
  by (simp add: py_index_def Let_def)

lemma py_index_nonneg: "0 \<le> i \<Longrightarrow> i < int (length xs) \<Longrightarrow> py_index xs i = Inr (xs ! nat i)"
  by (simp add: py_index_def Let_def)

text \<open>
  The algorithms compare their elements with the rich comparisons, here the order of
  the values \<open>k\<close> extracts (\<open>text_key\<close> for Songs compared by strings).

  \<^verbatim>\<open>binary_search(songs, song_to_find, low=0, high=None)\<close> is recursive; the first
  argument bounds the depth of the recursion, beyond which Python raises
  RecursionError. \<^verbatim>\<open>if not high\<close> holds for \<^verbatim>\<open>None\<close> and for \<^verbatim>\<open>0\<close>.
\<close>

fun binary_search ::
  "nat \<Rightarrow> ('a \<Rightarrow> 'k::linorder) \<Rightarrow> 'a list \<Rightarrow> 'a \<Rightarrow> int \<Rightarrow> int option \<Rightarrow> error + int" where
  "binary_search 0 k songs song_to_find low high = Inl RecursionError"
| "binary_search (Suc d) k songs song_to_find low high =
     (let high = (case high of None \<Rightarrow> int (length songs) - 1
                  | Some h \<Rightarrow> if h = 0 then int (length songs) - 1 else h)
      in if low > high then Inr (- 1)
         else let mid = (low + high) div 2
              in case py_index songs mid of
                   Inl e \<Rightarrow> Inl e
                 | Inr m \<Rightarrow>
                     if k m = k song_to_find then Inr mid
                     else if k m < k song_to_find
                       then binary_search d k songs song_to_find (mid + 1) (Some high)
                       else binary_search d k songs song_to_find low (Some (mid - 1)))"

text \<open>\<^verbatim>\<open>ternary_search(songs, song_to_find, l=0, r=None)\<close>, with the same depth bound.\<close>

fun ternary_search ::
  "nat \<Rightarrow> ('a \<Rightarrow> 'k::linorder) \<Rightarrow> 'a list \<Rightarrow> 'a \<Rightarrow> int \<Rightarrow> int option \<Rightarrow> error + int" where
  "ternary_search 0 k songs song_to_find l r = Inl RecursionError"
| "ternary_search (Suc d) k songs song_to_find l r =
     (let r = (case r of None \<Rightarrow> int (length songs) - 1
               | Some h \<Rightarrow> if h = 0 then int (length songs) - 1 else h)
      in if r \<ge> l then
           (let mid1 = l + (r - l) div 3; mid2 = r - (r - l) div 3
            in case py_index songs mid1 of
                 Inl e \<Rightarrow> Inl e
               | Inr m1 \<Rightarrow>
                   if k m1 = k song_to_find then Inr mid1
                   else case py_index songs mid2 of
                     Inl e \<Rightarrow> Inl e
                   | Inr m2 \<Rightarrow>
                       if k m2 = k song_to_find then Inr mid2
                       else if k song_to_find < k m1
                         then ternary_search d k songs song_to_find l (Some (mid1 - 1))
                       else if k song_to_find > k m2
                         then ternary_search d k songs song_to_find (mid2 + 1) (Some r)
                       else ternary_search d k songs song_to_find (mid1 + 1) (Some (mid2 - 1)))
         else Inr (- 1))"

text \<open>
  \<^verbatim>\<open>int(n ** 0.5)\<close>: the truncated square root, the number of \<open>m \<ge> 1\<close> with
  \<open>m * m \<le> n\<close> (the floating-point root is exact for every list length below \<open>2^52\<close>).
\<close>

definition isqrt :: "nat \<Rightarrow> nat" where
  "isqrt n = length (filter (\<lambda>m. m * m \<le> n) [1..<Suc n])"

lemma isqrt_pos: "1 \<le> n \<Longrightarrow> 1 \<le> isqrt n"
  unfolding isqrt_def by (cases n) (simp_all add: upt_conv_Cons del: upt_Suc)

text \<open>
  \<^verbatim>\<open>jump_search\<close>: the two while loops are \<open>jump_blocks\<close> and \<open>jump_linear\<close>. The first
  returns either the \<^verbatim>\<open>-1\<close> of its early return or the pair \<open>(prev, step)\<close> it leaves.
\<close>

function jump_blocks ::
  "('a \<Rightarrow> 'k::linorder) \<Rightarrow> 'a list \<Rightarrow> 'a \<Rightarrow> int \<Rightarrow> int \<Rightarrow> error + (int + int \<times> int)" where
  "jump_blocks k songs song_to_find prev step =
     (let n = int (length songs)
      in if prev < n then
           (case py_index songs (min step n - 1) of
              Inl e \<Rightarrow> Inl e
            | Inr m \<Rightarrow>
                if k m < k song_to_find then
                  (let prev' = step; step' = step + int (isqrt (length songs))
                   in if prev' \<ge> n then Inr (Inl (- 1))
                      else jump_blocks k songs song_to_find prev' step')
                else Inr (Inr (prev, step)))
         else Inr (Inr (prev, step)))"
  by pat_completeness auto
termination
proof (relation "measure (\<lambda>(k, songs, t, prev, step). nat (int (length songs) - step))")
  show "wf (measure (\<lambda>(k, songs, t, prev, step). nat (int (length songs) - step)))"
    by simp
next
  fix k :: "'a \<Rightarrow> 'k" and songs :: "'a list" and song_to_find :: 'a and prev step n :: int
    and m prev' step'
  assume a: "n = int (length songs)" "py_index songs (min step n - 1) = Inr m" "prev' = step"
    "step' = step + int (isqrt (length songs))" "\<not> n \<le> prev'"
  from a(2) have "songs \<noteq> []"
    by (cases songs) simp_all
  then have "1 \<le> isqrt (length songs)"
    by (intro isqrt_pos) (cases songs, auto)
  with a show "((k, songs, song_to_find, prev', step'), (k, songs, song_to_find, prev, step))
    \<in> measure (\<lambda>(k, songs, t, prev, step). nat (int (length songs) - step))"
    by simp
qed

function jump_linear ::
  "('a \<Rightarrow> 'k::linorder) \<Rightarrow> 'a list \<Rightarrow> 'a \<Rightarrow> int \<Rightarrow> int \<Rightarrow> error + int" where
  "jump_linear k songs song_to_find prev step =
     (let n = int (length songs)
      in if prev < min step n then
           (case py_index songs prev of
              Inl e \<Rightarrow> Inl e
            | Inr m \<Rightarrow> if k m < k song_to_find
                       then jump_linear k songs song_to_find (prev + 1) step
                       else Inr prev)
         else Inr prev)"
  by pat_completeness auto
termination
  by (relation "measure (\<lambda>(k, songs, t, prev, step). nat (min step (int (length songs)) - prev))")
     auto

definition jump_search :: "('a \<Rightarrow> 'k::linorder) \<Rightarrow> 'a list \<Rightarrow> 'a \<Rightarrow> error + int" where
  "jump_search k songs song_to_find =
     (let n = int (length songs); step = int (isqrt (length songs)); prev = 0
      in case jump_blocks k songs song_to_find prev step of
           Inl e \<Rightarrow> Inl e
         | Inr (Inl r) \<Rightarrow> Inr r
         | Inr (Inr (prev, step)) \<Rightarrow>
             (case jump_linear k songs song_to_find prev step of
                Inl e \<Rightarrow> Inl e
              | Inr prev \<Rightarrow>
                  if prev < n then
                    (case py_index songs prev of
                       Inl e \<Rightarrow> Inl e
                     | Inr m \<Rightarrow> if k m = k song_to_find then Inr prev else Inr (- 1))
                  else Inr (- 1)))"

text \<open>
  \<^verbatim>\<open>exponential_search\<close>. Its doubling loop is a while loop with no bound of its own, so
  it is a partial function: \<open>None\<close> stands for a loop that never ends. The binary search
  it ends with inherits the recursion bound \<open>d\<close>.
\<close>

partial_function (option) exp_double ::
  "('a \<Rightarrow> 'k::linorder) \<Rightarrow> 'a list \<Rightarrow> 'a \<Rightarrow> int \<Rightarrow> (error + int) option" where
  "exp_double k songs song_to_find pos =
     (if pos < int (length songs) then
        (case py_index songs pos of
           Inl e \<Rightarrow> Some (Inl e)
         | Inr m \<Rightarrow> if k m \<le> k song_to_find
                    then exp_double k songs song_to_find (pos * 2)
                    else Some (Inr pos))
      else Some (Inr pos))"

declare exp_double.simps [code]

definition exponential_search ::
  "nat \<Rightarrow> ('a \<Rightarrow> 'k::linorder) \<Rightarrow> 'a list \<Rightarrow> 'a \<Rightarrow> (error + int) option" where
  "exponential_search d k songs song_to_find =
     (case py_index songs 0 of
        Inl e \<Rightarrow> Some (Inl e)
      | Inr m \<Rightarrow>
          if k m = k song_to_find then Some (Inr 0)
          else (case exp_double k songs song_to_find 1 of
                  None \<Rightarrow> None
                | Some (Inl e) \<Rightarrow> Some (Inl e)
                | Some (Inr pos) \<Rightarrow>
                    (let low = max 0 (pos div 2); high = min pos (int (length songs) - 1)
                     in Some (binary_search d k songs song_to_find low (Some high)))))"

text \<open>
  \<^verbatim>\<open>fibonaccianSearch(songs, song_to_find, n=None)\<close>: \<open>fib_grow\<close> is the loop that finds
  the smallest Fibonacci number not below \<open>n\<close>, \<open>fib_probe\<close> the probing loop; it
  returns the index found (\<open>Inl\<close>) or, when it runs out, the final \<^verbatim>\<open>fibMMm1\<close>
  (\<open>Inr\<close>) that the last test reads.
\<close>

partial_function (option) fib_grow ::
  "int \<Rightarrow> int \<Rightarrow> int \<Rightarrow> int \<Rightarrow> (int \<times> int \<times> int) option" where
  "fib_grow n fibMMm2 fibMMm1 fibM =
     (if fibM < n then fib_grow n fibMMm1 fibM (fibMMm1 + fibM)
      else Some (fibMMm2, fibMMm1, fibM))"

partial_function (option) fib_probe ::
  "('a \<Rightarrow> 'k::linorder) \<Rightarrow> 'a list \<Rightarrow> 'a \<Rightarrow> int \<Rightarrow> int \<Rightarrow> int \<Rightarrow> int \<Rightarrow> int
     \<Rightarrow> (error + (int + int)) option" where
  "fib_probe k songs song_to_find n fibMMm2 fibMMm1 fibM offset =
     (if fibM > 1 then
        (let i = min (offset + fibMMm2) (n - 1)
         in case py_index songs i of
              Inl e \<Rightarrow> Some (Inl e)
            | Inr m \<Rightarrow>
                if k m < k song_to_find then
                  fib_probe k songs song_to_find n (fibMMm1 - fibMMm2) fibMMm2 fibMMm1 i
                else if k m > k song_to_find then
                  fib_probe k songs song_to_find n
                    (fibMMm2 - (fibMMm1 - fibMMm2)) (fibMMm1 - fibMMm2) fibMMm2 offset
                else Some (Inr (Inl i)))
      else Some (Inr (Inr fibMMm1)))"

declare fib_grow.simps [code] fib_probe.simps [code]

definition fibonaccianSearch ::
  "('a \<Rightarrow> 'k::linorder) \<Rightarrow> 'a list \<Rightarrow> 'a \<Rightarrow> int option \<Rightarrow> (error + int) option" where
  "fibonaccianSearch k songs song_to_find n =
     (let n = (case n of None \<Rightarrow> int (length songs)
               | Some v \<Rightarrow> if v = 0 then int (length songs) else v)
      in case fib_grow n 0 1 (0 + 1) of
           None \<Rightarrow> None
         | Some (fibMMm2, fibMMm1, fibM) \<Rightarrow>
             (case fib_probe k songs song_to_find n fibMMm2 fibMMm1 fibM (- 1) of
                None \<Rightarrow> None
              | Some (Inl e) \<Rightarrow> Some (Inl e)
              | Some (Inr (Inl i)) \<Rightarrow> Some (Inr i)
              | Some (Inr (Inr fibMMm1)) \<Rightarrow>
                  if fibMMm1 \<noteq> 0 then
                    (case py_index songs (n - 1) of
                       Inl e \<Rightarrow> Some (Inl e)
                     | Inr m \<Rightarrow> if k m = k song_to_find then Some (Inr (n - 1))
                                else Some (Inr (- 1)))
                  else Some (Inr (- 1))))"

section \<open>Sort strategies\<close>

text \<open>
  \<^verbatim>\<open>merge\<close> walks both lists with two indices and takes the right element unless the
  left one is strictly less; what is left of either list is appended.
\<close>

fun merge :: "('a \<Rightarrow> 'k::linorder) \<Rightarrow> 'a list \<Rightarrow> 'a list \<Rightarrow> 'a list" where
  "merge k [] right = right"
| "merge k left [] = left"
| "merge k (x # left) (y # right) =
     (if k x < k y then x # merge k left (y # right) else y # merge k (x # left) right)"

function merge_sort :: "('a \<Rightarrow> 'k::linorder) \<Rightarrow> 'a list \<Rightarrow> 'a list" where
  "merge_sort k songs =
     (if length songs \<le> 1 then songs
      else let mid = length songs div 2;
               left_half = merge_sort k (take mid songs);
               right_half = merge_sort k (drop mid songs)
           in merge k left_half right_half)"
  by pat_completeness auto
termination
  by (relation "measure (\<lambda>(k, songs). length songs)") auto

text \<open>
  \<^verbatim>\<open>insertion_sort\<close> works in place. \<open>insertion_shift\<close> is its inner while loop (the
  indices it touches lie between \<open>0\<close> and \<open>i\<close>, inside the list) and returns the
  list and the final \<open>j\<close>. The function returns the list, but for a list of at most
  one element the bare \<^verbatim>\<open>return\<close> returns Python's \<^verbatim>\<open>None\<close>: the result is an option,
  \<open>None\<close> being \<^verbatim>\<open>None\<close>.
\<close>

function insertion_shift :: "('a \<Rightarrow> 'k::linorder) \<Rightarrow> 'a \<Rightarrow> 'a list \<Rightarrow> int \<Rightarrow> 'a list \<times> int" where
  "insertion_shift k key_song songs j =
     (if j \<ge> 0 \<and> k key_song < k (songs ! nat j)
      then insertion_shift k key_song (songs[nat (j + 1) := songs ! nat j]) (j - 1)
      else (songs, j))"
  by pat_completeness auto
termination
  by (relation "measure (\<lambda>(k, key_song, songs, j). nat (j + 1))") auto

definition insertion_step :: "('a \<Rightarrow> 'k::linorder) \<Rightarrow> 'a list \<Rightarrow> nat \<Rightarrow> 'a list" where
  "insertion_step k songs i =
     (let key_song = songs ! i;
          (songs', j) = insertion_shift k key_song songs (int i - 1)
      in songs'[nat (j + 1) := key_song])"

definition insertion_sort :: "('a \<Rightarrow> 'k::linorder) \<Rightarrow> 'a list \<Rightarrow> 'a list option" where
  "insertion_sort k songs =
     (let n = length songs
      in if n \<le> 1 then None
         else Some (foldl (insertion_step k) songs [1..<n]))"

section \<open>The unbalanced binary search tree\<close>

text \<open>
  A \<^verbatim>\<open>TreeNode\<close> has a song and two children, each a node or \<^verbatim>\<open>None\<close> (\<open>BNil\<close>).
  \<^verbatim>\<open>_insert_recursive\<close> calls itself once for every level it goes down; the first
  argument is the number of nested calls the interpreter still allows, and with none
  left the call raises RecursionError. The new node is attached by the innermost call,
  so a call that raises has changed nothing. The method is only ever called on a node
  and has no equation for \<open>BNil\<close>.
\<close>

datatype 'a bst = BNil | BNode "'a bst" 'a "'a bst"

fun bst_insert_recursive ::
  "nat \<Rightarrow> ('a \<Rightarrow> 'k::linorder) \<Rightarrow> 'a bst \<Rightarrow> 'a \<Rightarrow> error + 'a bst" where
  "bst_insert_recursive 0 k node song = Inl RecursionError"
| "bst_insert_recursive (Suc d) k (BNode l x r) song =
     (if k song < k x then
        (case l of
           BNil \<Rightarrow> Inr (BNode (BNode BNil song BNil) x r)
         | BNode _ _ _ \<Rightarrow>
             (case bst_insert_recursive d k l song of
                Inl e \<Rightarrow> Inl e
              | Inr l' \<Rightarrow> Inr (BNode l' x r)))
      else
        (case r of
           BNil \<Rightarrow> Inr (BNode l x (BNode BNil song BNil))
         | BNode _ _ _ \<Rightarrow>
             (case bst_insert_recursive d k r song of
                Inl e \<Rightarrow> Inl e
              | Inr r' \<Rightarrow> Inr (BNode l x r'))))"

text \<open>\<^verbatim>\<open>insert\<close>: the tree it leaves, whether it returns or raises.\<close>

definition bst_insert :: "nat \<Rightarrow> ('a \<Rightarrow> 'k::linorder) \<Rightarrow> 'a \<Rightarrow> 'a bst \<Rightarrow> 'a bst outcome" where
  "bst_insert d k song root =
     (case root of
        BNil \<Rightarrow> Returned (BNode BNil song BNil)
      | BNode _ _ _ \<Rightarrow>
          (case bst_insert_recursive d k root song of
             Inl e \<Rightarrow> Raised e root
           | Inr root' \<Rightarrow> Returned root'))"

text \<open>
  The iterator of the tree, \<^verbatim>\<open>node_depth_first_iter\<close>, keeps a deque as a stack: it pops
  a node from the left, yields it, and pushes its right child and then its left child
  on the left.
\<close>

fun bst_size :: "'a bst \<Rightarrow> nat" where
  "bst_size BNil = 1"
| "bst_size (BNode l x r) = 1 + bst_size l + bst_size r"

function node_depth_first_iter :: "'a bst list \<Rightarrow> 'a bst list" where
  "node_depth_first_iter [] = []"
| "node_depth_first_iter (BNil # stack) = node_depth_first_iter stack"
| "node_depth_first_iter (BNode l x r # stack) =
     BNode l x r #
     node_depth_first_iter
       ((if l \<noteq> BNil then [l] else []) @ (if r \<noteq> BNil then [r] else []) @ stack)"
  by pat_completeness auto
termination
  by (relation "measure (\<lambda>stack. sum_list (map bst_size stack))") auto

section \<open>The AVL tree\<close>

text \<open>
  An \<^verbatim>\<open>AVLNode\<close> has a song, a cached height and two children; \<open>ANil\<close> is \<^verbatim>\<open>None\<close>.
  The parent links of the nodes are represented by a path: the list of frames from the
  node in focus up to the root. A frame holds the side of its parent the focus hangs on
  and the parent's song, cached height and other child. \<^verbatim>\<open>node.parent\<close> is the first
  frame; the root is the node whose path is empty.
\<close>

datatype 'a avl = ANil | ANode "'a avl" 'a int "'a avl"

datatype dir = LeftChild | RightChild

datatype 'a aframe = AFrame dir 'a int "'a avl"

fun avl_plug :: "'a avl \<Rightarrow> 'a aframe list \<Rightarrow> 'a avl" where
  "avl_plug t [] = t"
| "avl_plug t (AFrame LeftChild x h r # path) = avl_plug (ANode t x h r) path"
| "avl_plug t (AFrame RightChild x h l # path) = avl_plug (ANode l x h t) path"

text \<open>\<^verbatim>\<open>left_height\<close> and \<^verbatim>\<open>right_height\<close> read the child's cached height, 0 for \<^verbatim>\<open>None\<close>.\<close>

fun cached_height :: "'a avl \<Rightarrow> int" where
  "cached_height ANil = 0"
| "cached_height (ANode l x h r) = h"

fun balance_factor :: "'a avl \<Rightarrow> int" where
  "balance_factor (ANode l x h r) = cached_height l - cached_height r"

fun update_height :: "'a avl \<Rightarrow> 'a avl" where
  "update_height (ANode l x h r) = ANode l x (1 + max (cached_height l) (cached_height r)) r"

fun set_left :: "'a avl \<Rightarrow> 'a avl \<Rightarrow> 'a avl" where
  "set_left (ANode l x h r) node = update_height (ANode node x h r)"

fun set_right :: "'a avl \<Rightarrow> 'a avl \<Rightarrow> 'a avl" where
  "set_right (ANode l x h r) node = update_height (ANode l x h node)"

text \<open>A rotation reads \<^verbatim>\<open>b.left\<close> of the child \<^verbatim>\<open>b\<close>: AttributeError when \<^verbatim>\<open>b\<close> is \<^verbatim>\<open>None\<close>.\<close>

fun rotate_left :: "'a avl \<Rightarrow> error + 'a avl" where
  "rotate_left (ANode al ax ah ANil) = Inl AttributeError"
| "rotate_left (ANode al ax ah (ANode bl bx bh br)) =
     Inr (set_left (ANode bl bx bh br) (set_right (ANode al ax ah (ANode bl bx bh br)) bl))"

fun rotate_right :: "'a avl \<Rightarrow> error + 'a avl" where
  "rotate_right (ANode ANil ax ah ar) = Inl AttributeError"
| "rotate_right (ANode (ANode bl bx bh br) ax ah ar) =
     Inr (set_right (ANode bl bx bh br) (set_left (ANode (ANode bl bx bh br) ax ah ar) br))"

fun rebalance :: "'a avl \<Rightarrow> error + 'a avl" where
  "rebalance ANil = Inr ANil"
| "rebalance (ANode l x h r) =
     (let node = ANode l x h r; balance = balance_factor node
      in if \<bar>balance\<bar> \<le> 1 then Inr node
         else if balance = 2 then
           (case l of
              ANil \<Rightarrow> Inl AttributeError
            | ANode _ _ _ _ \<Rightarrow>
                if balance_factor l = - 1 then
                  (case rotate_left l of
                     Inl e \<Rightarrow> Inl e
                   | Inr l' \<Rightarrow> rotate_right (set_left node l'))
                else rotate_right node)
         else
           (case r of
              ANil \<Rightarrow> Inl AttributeError
            | ANode _ _ _ _ \<Rightarrow>
                if balance_factor r = 1 then
                  (case rotate_right r of
                     Inl e \<Rightarrow> Inl e
                   | Inr r' \<Rightarrow> rotate_left (set_right node r'))
                else rotate_left node))"

text \<open>
  \<^verbatim>\<open>restore_balance(node)\<close>: at the node in focus, rebalance the left child, then the
  right child, update the height, and move to the parent; at the top, rebalance the root.
\<close>

fun restore_balance :: "'a avl \<Rightarrow> 'a aframe list \<Rightarrow> 'a avl outcome" where
  "restore_balance (ANode l x h r) path =
     (let current = ANode l x h r
      in case rebalance l of
           Inl e \<Rightarrow> Raised e (avl_plug current path)
         | Inr l' \<Rightarrow>
             (let c1 = set_left current l'
              in case rebalance r of
                   Inl e \<Rightarrow> Raised e (avl_plug c1 path)
                 | Inr r' \<Rightarrow>
                     (let c2 = update_height (set_right c1 r')
                      in case path of
                           [] \<Rightarrow>
                             (case rebalance c2 of
                                Inl e \<Rightarrow> Raised e c2
                              | Inr root \<Rightarrow> Returned root)
                         | AFrame LeftChild px ph pr # up \<Rightarrow> restore_balance (ANode c2 px ph pr) up
                         | AFrame RightChild px ph pl # up \<Rightarrow> restore_balance (ANode pl px ph c2) up)))"

text \<open>The descent of \<^verbatim>\<open>insert\<close>: the path to the \<^verbatim>\<open>None\<close> the new node replaces.\<close>

fun avl_descend :: "('a \<Rightarrow> 'k::linorder) \<Rightarrow> 'a \<Rightarrow> 'a avl \<Rightarrow> 'a aframe list \<Rightarrow> 'a aframe list" where
  "avl_descend k v ANil path = path"
| "avl_descend k v (ANode l x h r) path =
     (if k v < k x then avl_descend k v l (AFrame LeftChild x h r # path)
      else avl_descend k v r (AFrame RightChild x h l # path))"

definition avl_insert :: "('a \<Rightarrow> 'k::linorder) \<Rightarrow> 'a \<Rightarrow> 'a avl \<Rightarrow> 'a avl outcome" where
  "avl_insert k v root = restore_balance (ANode ANil v 1 ANil) (avl_descend k v root [])"

text \<open>\<^verbatim>\<open>search\<close>, returning the node found together with its path.\<close>

fun avl_search_path ::
  "('a \<Rightarrow> 'k::linorder) \<Rightarrow> 'a \<Rightarrow> 'a avl \<Rightarrow> 'a aframe list \<Rightarrow> ('a avl \<times> 'a aframe list) option" where
  "avl_search_path k song ANil path = None"
| "avl_search_path k song (ANode l x h r) path =
     (if k song = k x then Some (ANode l x h r, path)
      else if k song < k x then avl_search_path k song l (AFrame LeftChild x h r # path)
      else avl_search_path k song r (AFrame RightChild x h l # path))"

text \<open>
  \<^verbatim>\<open>delete\<close>, when the node has a left child, takes the rightmost node of the left
  subtree as replacement and unlinks it: \<^verbatim>\<open>replacement.parent.set_left(...)\<close> when the
  replacement is the left child itself, \<^verbatim>\<open>replacement.parent.set_right(...)\<close> further
  down (\<open>unlink_rightmost\<close>, called on the parent of the chain). Only the
  replacement's parent gets its height updated.
\<close>

fun unlink_rightmost :: "'a avl \<Rightarrow> 'a avl" where
  "unlink_rightmost (ANode l x h (ANode rl rx rh ANil)) = set_right (ANode l x h (ANode rl rx rh ANil)) rl"
| "unlink_rightmost (ANode l x h (ANode rl rx rh (ANode a b c d))) =
     ANode l x h (unlink_rightmost (ANode rl rx rh (ANode a b c d)))"

fun unlink_leftmost :: "'a avl \<Rightarrow> 'a avl" where
  "unlink_leftmost (ANode (ANode ANil lx lh lr) x h r) = set_left (ANode (ANode ANil lx lh lr) x h r) lr"
| "unlink_leftmost (ANode (ANode (ANode a b c d) lx lh lr) x h r) =
     ANode (unlink_leftmost (ANode (ANode a b c d) lx lh lr)) x h r"

text \<open>
  With a replacement found, \<^verbatim>\<open>node.song = replacement.value\<close> reads an attribute no
  \<^verbatim>\<open>AVLNode\<close> has and raises AttributeError, after the replacement was unlinked and
  before anything is rebalanced. Without one the node is a leaf: \<^verbatim>\<open>delete_leaf\<close> clears
  the parent's link and \<^verbatim>\<open>restore_balance\<close> starts at the parent.
\<close>

definition avl_delete :: "('a \<Rightarrow> 'k::linorder) \<Rightarrow> 'a \<Rightarrow> 'a avl \<Rightarrow> 'a avl outcome" where
  "avl_delete k v root =
     (case avl_search_path k v root [] of
        None \<Rightarrow> Raised ValueNotStored root
      | Some (node, path) \<Rightarrow>
          (case node of
             ANil \<Rightarrow> Raised ValueNotStored root
           | ANode l x h r \<Rightarrow>
               (case l of
                  ANode ll lx lh lr \<Rightarrow>
                    (case lr of
                       ANil \<Rightarrow> Raised AttributeError (avl_plug (set_left node ll) path)
                     | ANode _ _ _ _ \<Rightarrow>
                         Raised AttributeError (avl_plug (ANode (unlink_rightmost l) x h r) path))
                | ANil \<Rightarrow>
                    (case r of
                       ANode rl rx rh rr \<Rightarrow>
                         (case rl of
                            ANil \<Rightarrow> Raised AttributeError (avl_plug (set_right node rr) path)
                          | ANode _ _ _ _ \<Rightarrow>
                              Raised AttributeError (avl_plug (ANode l x h (unlink_leftmost r)) path))
                     | ANil \<Rightarrow>
                         (case path of
                            [] \<Rightarrow> Returned ANil
                          | AFrame LeftChild px ph pr # up \<Rightarrow> restore_balance (ANode ANil px ph pr) up
                          | AFrame RightChild px ph pl # up \<Rightarrow> restore_balance (ANode pl px ph ANil) up)))))"

section \<open>The red-black tree\<close>

text \<open>
  A \<^verbatim>\<open>RedBlackNode\<close> has a colour, a song and two children; \<open>NIL\<close> is the sentinel
  \<^verbatim>\<open>self.NIL\<close>, which is black, holds no song and is never recoloured red. As for the AVL
  tree, the parent links are a path of frames (side, the parent's colour and song, the
  parent's other child); the parent the code records in the sentinel during a delete is
  the path of a \<open>NIL\<close> in focus.
\<close>

datatype color = RED | BLACK

datatype 'a rbt = NIL | RBNode color "'a rbt" 'a "'a rbt"

datatype 'a rframe = RFrame dir color 'a "'a rbt"

fun rb_plug :: "'a rbt \<Rightarrow> 'a rframe list \<Rightarrow> 'a rbt" where
  "rb_plug t [] = t"
| "rb_plug t (RFrame LeftChild c x r # path) = rb_plug (RBNode c t x r) path"
| "rb_plug t (RFrame RightChild c x l # path) = rb_plug (RBNode c l x t) path"

fun color_of :: "'a rbt \<Rightarrow> color" where
  "color_of NIL = BLACK"
| "color_of (RBNode c l x r) = c"

text \<open>\<^verbatim>\<open>node.color = c\<close>; on the sentinel the code only ever writes BLACK.\<close>

fun paint :: "color \<Rightarrow> 'a rbt \<Rightarrow> 'a rbt" where
  "paint c NIL = NIL"
| "paint c (RBNode _ l x r) = RBNode c l x r"

text \<open>
  The rotations, on the subtree rooted at \<^verbatim>\<open>x\<close>. With \<^verbatim>\<open>y\<close> the sentinel,
  \<^verbatim>\<open>y.left\<close> is \<^verbatim>\<open>None\<close> and \<^verbatim>\<open>y.left.parent = x\<close> raises AttributeError.
\<close>

fun left_rotate :: "'a rbt \<Rightarrow> error + 'a rbt" where
  "left_rotate (RBNode xc a x (RBNode yc b y c)) = Inr (RBNode yc (RBNode xc a x b) y c)"
| "left_rotate _ = Inl AttributeError"

fun right_rotate :: "'a rbt \<Rightarrow> error + 'a rbt" where
  "right_rotate (RBNode xc (RBNode yc a y b) x c) = Inr (RBNode yc a y (RBNode xc b x c))"
| "right_rotate _ = Inl AttributeError"

text \<open>
  \<^verbatim>\<open>fix_insert(node)\<close>. The loop runs while the node is not the root and its parent is
  red; it needs the grandparent (AttributeError on \<^verbatim>\<open>None\<close> when the red parent is the
  root). With a red uncle it recolours and continues at the grandparent; otherwise it
  rotates, after which the parent of the node is black and the loop ends. Last, the root
  is painted black.
\<close>

fun fix_insert :: "'a rbt \<Rightarrow> 'a rframe list \<Rightarrow> error + 'a rbt" where
  "fix_insert node [] = Inr (paint BLACK node)"
| "fix_insert node (RFrame d BLACK px sib # up) =
     Inr (paint BLACK (rb_plug node (RFrame d BLACK px sib # up)))"
| "fix_insert node [RFrame d RED px sib] = Inl AttributeError"
| "fix_insert node (RFrame d RED px sib # RFrame LeftChild gc gx uncle # up) =
     (let parent = rb_plug node [RFrame d RED px sib]
      in if color_of uncle = RED then
           fix_insert (RBNode RED (paint BLACK parent) gx (paint BLACK uncle)) up
         else
           (case (if d = RightChild then left_rotate parent else Inr parent) of
              Inl e \<Rightarrow> Inl e
            | Inr upper \<Rightarrow>
                (case right_rotate (RBNode RED (paint BLACK upper) gx uncle) of
                   Inl e \<Rightarrow> Inl e
                 | Inr t \<Rightarrow> Inr (paint BLACK (rb_plug t up)))))"
| "fix_insert node (RFrame d RED px sib # RFrame RightChild gc gx uncle # up) =
     (let parent = rb_plug node [RFrame d RED px sib]
      in if color_of uncle = RED then
           fix_insert (RBNode RED (paint BLACK uncle) gx (paint BLACK parent)) up
         else
           (case (if d = LeftChild then right_rotate parent else Inr parent) of
              Inl e \<Rightarrow> Inl e
            | Inr upper \<Rightarrow>
                (case left_rotate (RBNode RED uncle gx (paint BLACK upper)) of
                   Inl e \<Rightarrow> Inl e
                 | Inr t \<Rightarrow> Inr (paint BLACK (rb_plug t up)))))"

fun rb_descend :: "('a \<Rightarrow> 'k::linorder) \<Rightarrow> 'a \<Rightarrow> 'a rbt \<Rightarrow> 'a rframe list \<Rightarrow> 'a rframe list" where
  "rb_descend k song NIL path = path"
| "rb_descend k song (RBNode c l x r) path =
     (if k song < k x then rb_descend k song l (RFrame LeftChild c x r # path)
      else rb_descend k song r (RFrame RightChild c x l # path))"

definition rbt_insert :: "('a \<Rightarrow> 'k::linorder) \<Rightarrow> 'a \<Rightarrow> 'a rbt \<Rightarrow> error + 'a rbt" where
  "rbt_insert k song root = fix_insert (RBNode RED NIL song NIL) (rb_descend k song root [])"

fun rbt_search_path ::
  "('a \<Rightarrow> 'k::linorder) \<Rightarrow> 'a \<Rightarrow> 'a rbt \<Rightarrow> 'a rframe list \<Rightarrow> ('a rbt \<times> 'a rframe list) option" where
  "rbt_search_path k song NIL path = None"
| "rbt_search_path k song (RBNode c l x r) path =
     (if k x = k song then Some (RBNode c l x r, path)
      else if k song < k x then rbt_search_path k song l (RFrame LeftChild c x r # path)
      else rbt_search_path k song r (RFrame RightChild c x l # path))"

text \<open>\<^verbatim>\<open>minimum(node)\<close>, called on a node: the leftmost node below it, with its path.\<close>

fun rb_minimum :: "'a rbt \<Rightarrow> 'a rframe list \<Rightarrow> 'a rbt \<times> 'a rframe list" where
  "rb_minimum (RBNode c NIL x r) path = (RBNode c NIL x r, path)"
| "rb_minimum (RBNode c (RBNode lc ll lx lr) x r) path =
     rb_minimum (RBNode lc ll lx lr) (RFrame LeftChild c x r # path)"

text \<open>
  \<^verbatim>\<open>fix_delete(x)\<close>. The loop runs while \<^verbatim>\<open>x\<close> is not the root and is black. One
  iteration, for \<^verbatim>\<open>x\<close> a left child, has three parts (the right side mirrors them).

  First, a red sibling is painted black, the parent red, and the parent is rotated
  left; the new sibling is the old sibling's left child. \<open>red_sibling_left\<close> returns the
  parent's colour, the sibling and the path above the parent as they are afterwards.
\<close>

definition red_sibling_left ::
  "'a rbt \<Rightarrow> color \<Rightarrow> 'a \<Rightarrow> 'a rbt \<Rightarrow> 'a rframe list \<Rightarrow> error + color \<times> 'a rbt \<times> 'a rframe list" where
  "red_sibling_left x pc px sibling up =
     (if color_of sibling = RED then
        (case left_rotate (RBNode RED x px (paint BLACK sibling)) of
           Inl e \<Rightarrow> Inl e
         | Inr NIL \<Rightarrow> Inl AttributeError
         | Inr (RBNode tc parent tx tb) \<Rightarrow>
             (case parent of
                NIL \<Rightarrow> Inl AttributeError
              | RBNode pc' _ _ s \<Rightarrow> Inr (pc', s, RFrame LeftChild tc tx tb # up)))
      else Inr (pc, sibling, up))"

definition red_sibling_right ::
  "'a rbt \<Rightarrow> color \<Rightarrow> 'a \<Rightarrow> 'a rbt \<Rightarrow> 'a rframe list \<Rightarrow> error + color \<times> 'a rbt \<times> 'a rframe list" where
  "red_sibling_right x pc px sibling up =
     (if color_of sibling = RED then
        (case right_rotate (RBNode RED (paint BLACK sibling) px x) of
           Inl e \<Rightarrow> Inl e
         | Inr NIL \<Rightarrow> Inl AttributeError
         | Inr (RBNode tc ta tx parent) \<Rightarrow>
             (case parent of
                NIL \<Rightarrow> Inl AttributeError
              | RBNode pc' s _ _ \<Rightarrow> Inr (pc', s, RFrame RightChild tc tx ta # up)))
      else Inr (pc, sibling, up))"

text \<open>
  Last, when the sibling has a red child: if its right child is black, the left child is
  painted black, the sibling red, and the sibling is rotated right; then the sibling
  takes the parent's colour, the parent and the sibling's right child are painted black
  and the parent is rotated left. \<open>red_nephew_left\<close> returns the subtree that takes the
  parent's place. Reading a child of a sibling that is the sentinel raises
  AttributeError.
\<close>

definition red_nephew_left :: "'a rbt \<Rightarrow> color \<Rightarrow> 'a \<Rightarrow> 'a rbt \<Rightarrow> error + 'a rbt" where
  "red_nephew_left x pc px sibling =
     (case sibling of
        NIL \<Rightarrow> Inl AttributeError
      | RBNode sc sl sx sr \<Rightarrow>
          (case (if color_of sr = BLACK
                 then right_rotate (RBNode RED (paint BLACK sl) sx sr)
                 else Inr sibling) of
             Inl e \<Rightarrow> Inl e
           | Inr NIL \<Rightarrow> Inl AttributeError
           | Inr (RBNode _ sl' sx' sr') \<Rightarrow>
               left_rotate (RBNode BLACK x px (RBNode pc sl' sx' (paint BLACK sr')))))"

definition red_nephew_right :: "'a rbt \<Rightarrow> color \<Rightarrow> 'a \<Rightarrow> 'a rbt \<Rightarrow> error + 'a rbt" where
  "red_nephew_right x pc px sibling =
     (case sibling of
        NIL \<Rightarrow> Inl AttributeError
      | RBNode sc sl sx sr \<Rightarrow>
          (case (if color_of sl = BLACK
                 then left_rotate (RBNode RED sl sx (paint BLACK sr))
                 else Inr sibling) of
             Inl e \<Rightarrow> Inl e
           | Inr NIL \<Rightarrow> Inl AttributeError
           | Inr (RBNode _ sl' sx' sr') \<Rightarrow>
               right_rotate (RBNode BLACK (RBNode pc (paint BLACK sl') sx' sr') px x)))"

lemma red_sibling_left_path:
  "red_sibling_left x pc px sibling up = Inr (pc', s, up') \<Longrightarrow>
     up' = up \<or> (pc' = RED \<and> length up' = Suc (length up))"
  by (cases sibling) (auto simp: red_sibling_left_def split: if_splits)

lemma red_sibling_right_path:
  "red_sibling_right x pc px sibling up = Inr (pc', s, up') \<Longrightarrow>
     up' = up \<or> (pc' = RED \<and> length up' = Suc (length up))"
  by (cases sibling) (auto simp: red_sibling_right_def split: if_splits)

text \<open>
  In between, when both children of the sibling are black, the sibling is painted red
  and the loop moves up to the parent. After the loop \<^verbatim>\<open>x\<close> is painted black; when the
  loop ended by \<^verbatim>\<open>x = self.root\<close> that paints the root.
\<close>

function fix_delete :: "'a rbt \<Rightarrow> 'a rframe list \<Rightarrow> error + 'a rbt" where
  "fix_delete x [] = Inr (paint BLACK x)"
| "fix_delete x (RFrame LeftChild pc px sibling # up) =
     (if color_of x = RED then Inr (rb_plug (paint BLACK x) (RFrame LeftChild pc px sibling # up))
      else case red_sibling_left x pc px sibling up of
             Inl e \<Rightarrow> Inl e
           | Inr (pc, sibling, up) \<Rightarrow>
               (case sibling of
                  NIL \<Rightarrow> Inl AttributeError
                | RBNode sc sl sx sr \<Rightarrow>
                    if color_of sl = BLACK \<and> color_of sr = BLACK then
                      fix_delete (RBNode pc x px (RBNode RED sl sx sr)) up
                    else
                      (case red_nephew_left x pc px sibling of
                         Inl e \<Rightarrow> Inl e
                       | Inr t \<Rightarrow> Inr (paint BLACK (rb_plug t up)))))"
| "fix_delete x (RFrame RightChild pc px sibling # up) =
     (if color_of x = RED then Inr (rb_plug (paint BLACK x) (RFrame RightChild pc px sibling # up))
      else case red_sibling_right x pc px sibling up of
             Inl e \<Rightarrow> Inl e
           | Inr (pc, sibling, up) \<Rightarrow>
               (case sibling of
                  NIL \<Rightarrow> Inl AttributeError
                | RBNode sc sl sx sr \<Rightarrow>
                    if color_of sr = BLACK \<and> color_of sl = BLACK then
                      fix_delete (RBNode pc (RBNode RED sl sx sr) px x) up
                    else
                      (case red_nephew_right x pc px sibling of
                         Inl e \<Rightarrow> Inl e
                       | Inr t \<Rightarrow> Inr (paint BLACK (rb_plug t up)))))"
  by pat_completeness auto
termination
proof (relation "measure (\<lambda>(x, path). 2 * length path + (if color_of x = RED then 0 else 1))")
  show "wf (measure (\<lambda>(x :: 'a rbt, path :: 'a rframe list).
              2 * length path + (if color_of x = RED then 0 else 1)))"
    by simp
next
  fix x :: "'a rbt" and pc px sibling up r pc' rest s up' sc sl sx sr
  assume "color_of x \<noteq> RED" "red_sibling_left x pc px sibling up = Inr r"
    "(pc', rest) = r" "(s, up') = rest"
  then have "red_sibling_left x pc px sibling up = Inr (pc', s, up')"
    by simp
  from red_sibling_left_path[OF this] \<open>color_of x \<noteq> RED\<close>
  show "((RBNode pc' x px (RBNode RED sl sx sr), up'), x, RFrame LeftChild pc px sibling # up)
        \<in> measure (\<lambda>(x, path). 2 * length path + (if color_of x = RED then 0 else 1))"
    by auto
next
  fix x :: "'a rbt" and pc px sibling up r pc' rest s up' sc sl sx sr
  assume "color_of x \<noteq> RED" "red_sibling_right x pc px sibling up = Inr r"
    "(pc', rest) = r" "(s, up') = rest"
  then have "red_sibling_right x pc px sibling up = Inr (pc', s, up')"
    by simp
  from red_sibling_right_path[OF this] \<open>color_of x \<noteq> RED\<close>
  show "((RBNode pc' (RBNode RED sl sx sr) px x, up'), x, RFrame RightChild pc px sibling # up)
        \<in> measure (\<lambda>(x, path). 2 * length path + (if color_of x = RED then 0 else 1))"
    by auto
qed

text \<open>
  \<^verbatim>\<open>delete(song)\<close>. A song that is not found is reported by a printed line and the call
  returns; the result carries the lines printed. Otherwise the node \<^verbatim>\<open>z\<close> found is
  removed: with at most one child, the child \<^verbatim>\<open>x\<close> takes its place; with two, the
  minimum \<^verbatim>\<open>y\<close> of the right subtree takes the place and the colour of \<^verbatim>\<open>z\<close>, and
  \<^verbatim>\<open>x = y.right\<close> takes the place of \<^verbatim>\<open>y\<close>. \<^verbatim>\<open>fix_delete(x)\<close> runs when the node that
  left its place was black.
\<close>

datatype 'a printed = NotFoundInTree 'a

definition rbt_delete ::
  "('a \<Rightarrow> 'k::linorder) \<Rightarrow> 'a \<Rightarrow> 'a rbt \<Rightarrow> error + 'a rbt \<times> 'a printed list" where
  "rbt_delete k song root =
     (case rbt_search_path k song root [] of
        None \<Rightarrow> Inr (root, [NotFoundInTree song])
      | Some (node_to_delete, path) \<Rightarrow>
          (case
             (case node_to_delete of
                NIL \<Rightarrow> Inl AttributeError
              | RBNode zc zl zx zr \<Rightarrow>
                  if zl = NIL then
                    (if zc = BLACK then fix_delete zr path else Inr (rb_plug zr path))
                  else if zr = NIL then
                    (if zc = BLACK then fix_delete zl path else Inr (rb_plug zl path))
                  else
                    (case rb_minimum zr [] of
                       (NIL, ypath) \<Rightarrow> Inl AttributeError
                     | (RBNode yc yl yx yr, ypath) \<Rightarrow>
                         (let xpath = ypath @ RFrame RightChild zc yx zl # path
                          in if yc = BLACK then fix_delete yr xpath
                             else Inr (rb_plug yr xpath)))) of
             Inl e \<Rightarrow> Inl e
           | Inr t \<Rightarrow> Inr (t, [])))"

section \<open>The trees of a playlist\<close>

text \<open>
  The trees of a playlist hold Songs, and \<^verbatim>\<open><\<close> between two Songs raises TypeError when
  one is compared by a string and the other by an integer. Here the comparing part of
  every insert and search is written once more, with the comparisons of Songs and the
  exception they can raise; what an insert does after its descent (\<open>fix_insert\<close>,
  \<open>restore_balance\<close>) compares nothing and is the function above. On Songs compared by
  strings these functions are the ones above at \<open>text_key\<close> (section
  \<open>Adding to a playlist\<close>).

  \<^verbatim>\<open>BinarySearchTree._insert_recursive\<close> and \<^verbatim>\<open>insert\<close>.
\<close>

fun song_bst_insert_recursive :: "nat \<Rightarrow> Song bst \<Rightarrow> Song \<Rightarrow> error + Song bst" where
  "song_bst_insert_recursive 0 node song = Inl RecursionError"
| "song_bst_insert_recursive (Suc d) (BNode l x r) song =
     (case song_lt song x of
        Inl e \<Rightarrow> Inl e
      | Inr smaller \<Rightarrow>
          if smaller then
            (case l of
               BNil \<Rightarrow> Inr (BNode (BNode BNil song BNil) x r)
             | BNode _ _ _ \<Rightarrow>
                 (case song_bst_insert_recursive d l song of
                    Inl e \<Rightarrow> Inl e
                  | Inr l' \<Rightarrow> Inr (BNode l' x r)))
          else
            (case r of
               BNil \<Rightarrow> Inr (BNode l x (BNode BNil song BNil))
             | BNode _ _ _ \<Rightarrow>
                 (case song_bst_insert_recursive d r song of
                    Inl e \<Rightarrow> Inl e
                  | Inr r' \<Rightarrow> Inr (BNode l x r'))))"

definition song_bst_insert :: "nat \<Rightarrow> Song \<Rightarrow> Song bst \<Rightarrow> error + Song bst" where
  "song_bst_insert d song root =
     (case root of
        BNil \<Rightarrow> Inr (BNode BNil song BNil)
      | BNode _ _ _ \<Rightarrow> song_bst_insert_recursive d root song)"


text \<open>The descent of \<^verbatim>\<open>RedBlackTree.insert\<close>, a loop, and the insert.\<close>

fun song_rb_descend :: "Song \<Rightarrow> Song rbt \<Rightarrow> Song rframe list \<Rightarrow> error + Song rframe list" where
  "song_rb_descend song NIL path = Inr path"
| "song_rb_descend song (RBNode c l x r) path =
     (case song_lt song x of
        Inl e \<Rightarrow> Inl e
      | Inr smaller \<Rightarrow>
          if smaller then song_rb_descend song l (RFrame LeftChild c x r # path)
          else song_rb_descend song r (RFrame RightChild c x l # path))"

definition song_rbt_insert :: "Song \<Rightarrow> Song rbt \<Rightarrow> error + Song rbt" where
  "song_rbt_insert song root =
     (case song_rb_descend song root [] of
        Inl e \<Rightarrow> Inl e
      | Inr path \<Rightarrow> fix_insert (RBNode RED NIL song NIL) path)"


text \<open>The descent of \<^verbatim>\<open>AVLTree.insert\<close>, a loop, and the insert.\<close>

fun song_avl_descend :: "Song \<Rightarrow> Song avl \<Rightarrow> Song aframe list \<Rightarrow> error + Song aframe list" where
  "song_avl_descend v ANil path = Inr path"
| "song_avl_descend v (ANode l x h r) path =
     (case song_lt v x of
        Inl e \<Rightarrow> Inl e
      | Inr smaller \<Rightarrow>
          if smaller then song_avl_descend v l (AFrame LeftChild x h r # path)
          else song_avl_descend v r (AFrame RightChild x h l # path))"

definition song_avl_insert :: "Song \<Rightarrow> Song avl \<Rightarrow> Song avl outcome" where
  "song_avl_insert v root =
     (case song_avl_descend v root [] of
        Inl e \<Rightarrow> Raised e root
      | Inr path \<Rightarrow> restore_balance (ANode ANil v 1 ANil) path)"


text \<open>
  \<^verbatim>\<open>list.sort()\<close> on a list of Songs. The sort of the library compares with \<^verbatim>\<open><\<close>
  alone and is stable. It cannot put a list in order without comparing, at some point,
  a Song of one kind with a Song of the other, so it raises TypeError exactly when the
  list holds Songs compared by strings next to Songs compared by integers; otherwise it
  returns the list sorted by those values, equal ones in the order they had.
\<close>

fun number_of :: "pyval \<Rightarrow> int" where
  "number_of (PInt i) = i"

definition number_key :: "Song \<Rightarrow> int" where
  "number_key s = number_of (skey s)"

definition sort_songs :: "Song list \<Rightarrow> error + Song list" where
  "sort_songs xs =
     (if list_all (\<lambda>s. is_text (skey s)) xs then Inr (sort_key text_key xs)
      else if list_all (\<lambda>s. \<not> is_text (skey s)) xs then Inr (sort_key number_key xs)
      else Inl TypeError)"

section \<open>Playlists and the music app\<close>

text \<open>
  A \<^verbatim>\<open>Playlist\<close> holds its name, the total playtime, the list in insertion order
  (\<^verbatim>\<open>songs_not_sorted\<close>), the sorted list (\<^verbatim>\<open>songs\<close>) and the three trees. The app holds
  the dictionary of playlists (its own name and directory never change and are left
  out). What a method prints is returned as a list of messages.
\<close>

record Playlist =
  name :: string
  total_time :: int
  songs_not_sorted :: "Song list"
  songs :: "Song list"
  bst :: "Song bst"
  rbt :: "Song rbt"
  avl :: "Song avl"

record MusicApp =
  playlists :: "string \<rightharpoonup> Playlist"

datatype msg = Added Song | Removed Song | NotFoundInLibrary pyval | CreatedPlaylist string

definition new_playlist :: "string \<Rightarrow> Playlist" where
  "new_playlist n = \<lparr>name = n, total_time = 0, songs_not_sorted = [], songs = [],
     bst = BNil, rbt = NIL, avl = ANil\<rparr>"

definition add_playlist :: "MusicApp \<Rightarrow> string \<Rightarrow> MusicApp \<times> msg list" where
  "add_playlist app n = (app\<lparr>playlists := (playlists app)(n \<mapsto> new_playlist n)\<rparr>, [CreatedPlaylist n])"

text \<open>
  \<^verbatim>\<open>add_song\<close> appends the song to both lists, sorts the sorted list, inserts into the
  three trees in turn and adds the playtime. The first argument is the number of nested
  calls the interpreter allows the recursive insert of the unbalanced tree. An exception
  ends the call; the half-updated playlist it would leave is not represented.
\<close>

definition add_song ::
  "nat \<Rightarrow> MusicApp \<Rightarrow> string \<Rightarrow> pyval \<Rightarrow> pyval \<Rightarrow> pyval \<Rightarrow> pyval \<Rightarrow> int \<Rightarrow> error + MusicApp \<times> msg list" where
  "add_song d app playlist_name t a al g song_time =
     (let song = mk_song t a al g (PInt song_time)
      in case playlists app playlist_name of
           None \<Rightarrow> Inl KeyError
         | Some playlist \<Rightarrow>
             (case sort_songs (songs playlist @ [song]) of
                Inl e \<Rightarrow> Inl e
              | Inr songs' \<Rightarrow>
                  (case song_bst_insert d song (bst playlist) of
                     Inl e \<Rightarrow> Inl e
                   | Inr bst' \<Rightarrow>
                       (case song_rbt_insert song (rbt playlist) of
                          Inl e \<Rightarrow> Inl e
                        | Inr rbt' \<Rightarrow>
                            (case song_avl_insert song (avl playlist) of
                               Raised e _ \<Rightarrow> Inl e
                             | Returned avl' \<Rightarrow>
                                 Inr (app\<lparr>playlists := (playlists app)(playlist_name \<mapsto>
                                        playlist\<lparr>songs_not_sorted := songs_not_sorted playlist @ [song],
                                          songs := songs',
                                          bst := bst',
                                          rbt := rbt',
                                          avl := avl',
                                          total_time := total_time playlist + song_time\<rparr>)\<rparr>,
                                      [Added song]))))))"

text \<open>
  \<^verbatim>\<open>delete_song\<close> looks for the first song of the sorted list with the given title.
  When there is one, the next statement, \<^verbatim>\<open>song_time = playlist.songs[song_to_delete]\<close>,
  indexes a list with a Song and raises TypeError; nothing after it runs, and nothing
  before it changes the playlist. When there is none, a line is printed.
\<close>

definition delete_song :: "MusicApp \<Rightarrow> string \<Rightarrow> pyval \<Rightarrow> error + MusicApp \<times> msg list" where
  "delete_song app playlist_name t =
     (case playlists app playlist_name of
        None \<Rightarrow> Inl KeyError
      | Some playlist \<Rightarrow>
          (case find (\<lambda>s. title s = t) (songs playlist) of
             Some song_to_delete \<Rightarrow> Inl TypeError
           | None \<Rightarrow> Inr (app, [NotFoundInLibrary t])))"

text \<open>
  \<^verbatim>\<open>shuffle_playlist\<close>; the first argument stands for \<^verbatim>\<open>np.random.permutation\<close>, the
  random permutation drawn.
\<close>

definition shuffle_playlist ::
  "(Song list \<Rightarrow> Song list) \<Rightarrow> MusicApp \<Rightarrow> string \<Rightarrow> error + MusicApp" where
  "shuffle_playlist permutation app playlist_name =
     (case playlists app playlist_name of
        None \<Rightarrow> Inl KeyError
      | Some playlist \<Rightarrow>
          Inr (app\<lparr>playlists := (playlists app)(playlist_name \<mapsto>
                 playlist\<lparr>songs_not_sorted := permutation (songs_not_sorted playlist)\<rparr>)\<rparr>))"




section \<open>Contents and shape of the trees\<close>

fun bst_inorder :: "'a bst \<Rightarrow> 'a list" where
  "bst_inorder BNil = []"
| "bst_inorder (BNode l x r) = bst_inorder l @ x # bst_inorder r"

text \<open>\<^verbatim>\<open>node.song\<close> of a node, and the songs of a tree root first.\<close>

fun bst_song :: "'a bst \<Rightarrow> 'a" where
  "bst_song (BNode l x r) = x"

fun bst_preorder :: "'a bst \<Rightarrow> 'a list" where
  "bst_preorder BNil = []"
| "bst_preorder (BNode l x r) = x # bst_preorder l @ bst_preorder r"

fun rb_inorder :: "'a rbt \<Rightarrow> 'a list" where
  "rb_inorder NIL = []"
| "rb_inorder (RBNode c l x r) = rb_inorder l @ x # rb_inorder r"

fun avl_inorder :: "'a avl \<Rightarrow> 'a list" where
  "avl_inorder ANil = []"
| "avl_inorder (ANode l x h r) = avl_inorder l @ x # avl_inorder r"

text \<open>The height of an AVL tree as it is, next to the height its nodes cache.\<close>

fun real_height :: "'a avl \<Rightarrow> int" where
  "real_height ANil = 0"
| "real_height (ANode l x h r) = 1 + max (real_height l) (real_height r)"

text \<open>Every node has a balance factor (as the code computes it) of -1, 0 or 1.\<close>

fun all_balanced :: "'a avl \<Rightarrow> bool" where
  "all_balanced ANil = True"
| "all_balanced (ANode l x h r) =
     (balance_factor (ANode l x h r) \<in> {- 1, 0, 1} \<and> all_balanced l \<and> all_balanced r)"

text \<open>The same with the heights of the subtrees as they are.\<close>

fun really_balanced :: "'a avl \<Rightarrow> bool" where
  "really_balanced ANil = True"
| "really_balanced (ANode l x h r) =
     (real_height l - real_height r \<in> {- 1, 0, 1} \<and> really_balanced l \<and> really_balanced r)"

section \<open>Example songs\<close>

definition song_A :: Song where
  "song_A = mk_song (PStr ''A'') (PStr ''artist'') (PStr ''album'') (PStr ''genre'') (PInt 200)"

definition song_B :: Song where
  "song_B = mk_song (PStr ''B'') (PStr ''artist'') (PStr ''album'') (PStr ''genre'') (PInt 180)"

definition song_C :: Song where
  "song_C = mk_song (PStr ''C'') (PStr ''artist'') (PStr ''album'') (PStr ''genre'') (PInt 90)"

lemma skey_examples [simp]:
  "skey song_A = PStr ''A''" "skey song_B = PStr ''B''" "skey song_C = PStr ''C''"
  by (simp_all add: skey_def song_A_def song_B_def song_C_def mk_song_def)

lemma text_key_examples [simp]:
  "text_key song_A = ''A''" "text_key song_B = ''B''" "text_key song_C = ''C''"
  by (simp_all add: text_key_def)

lemma letters_less [simp]:
  "''A'' < ''B''" "''B'' < ''C''" "''A'' < ''C''"
  "\<not> ''B'' < ''A''" "\<not> ''C'' < ''B''" "\<not> ''C'' < ''A''"
  by code_simp+

text \<open>
  The scenario of the specification: a playlist \<open>P\<close> to which \<open>B\<close> (180 s), \<open>A\<close> (200 s) and
  \<open>C\<close> (90 s) are added in this order.
\<close>

definition then_add ::
  "nat \<Rightarrow> error + MusicApp \<times> msg list \<Rightarrow> string \<Rightarrow> string \<Rightarrow> int \<Rightarrow> error + MusicApp \<times> msg list" where
  "then_add d r p t n =
     (case r of
        Inl e \<Rightarrow> Inl e
      | Inr (app, _) \<Rightarrow> add_song d app p (PStr t) (PStr ''artist'') (PStr ''album'') (PStr ''genre'') n)"

definition scenario :: "nat \<Rightarrow> error + MusicApp \<times> msg list" where
  "scenario d =
     then_add d (then_add d (then_add d (Inr (add_playlist \<lparr>playlists = Map.empty\<rparr> ''P''))
       ''P'' ''B'' 180) ''P'' ''A'' 200) ''P'' ''C'' 90"

section \<open>Deleting a song\<close>

text \<open>
  C1: in the scenario (with room for at least one nested call of the unbalanced tree's
  insert) the three adds give the sorted view \<open>[A, B, C]\<close> and the total playtime
  470. Deleting \<open>B\<close> then raises TypeError (at \<^verbatim>\<open>playlist.songs[song_to_delete]\<close>) instead of
  removing the song, so the playlist is left as it was: the total stays 470 and \<open>B\<close>
  stays in every view. The AVL tree's own delete, which the method would call next,
  raises AttributeError on this tree as well.
\<close>

theorem delete_song_scenario_raises:
  "(case scenario (Suc d) of
      Inl e \<Rightarrow> False
    | Inr (app, out) \<Rightarrow>
        (case playlists app ''P'' of
           None \<Rightarrow> False
         | Some pl \<Rightarrow>
             songs pl = [song_A, song_B, song_C] \<and> total_time pl = 470 \<and>
             (case delete_song app ''P'' (PStr ''B'') of
                Inl e \<Rightarrow> e = TypeError
              | Inr r \<Rightarrow> False) \<and>
             (case avl_delete text_key (probe (PStr ''B'')) (avl pl) of
                Raised e t \<Rightarrow> e = AttributeError
              | Returned t \<Rightarrow> False)))"
  by code_simp

section \<open>Sequences of tree operations\<close>

datatype 'a op = Ins 'a | Del 'a

text \<open>A run stops at the first operation that raises.\<close>

fun bst_run :: "nat \<Rightarrow> ('a \<Rightarrow> 'k::linorder) \<Rightarrow> 'a list \<Rightarrow> 'a bst \<Rightarrow> 'a bst outcome" where
  "bst_run d k [] t = Returned t"
| "bst_run d k (x # xs) t =
     (case bst_insert d k x t of Raised e t' \<Rightarrow> Raised e t' | Returned t' \<Rightarrow> bst_run d k xs t')"

fun avl_run :: "('a \<Rightarrow> 'k::linorder) \<Rightarrow> 'a op list \<Rightarrow> 'a avl \<Rightarrow> 'a avl outcome" where
  "avl_run k [] t = Returned t"
| "avl_run k (Ins x # ops) t =
     (case avl_insert k x t of Raised e t' \<Rightarrow> Raised e t' | Returned t' \<Rightarrow> avl_run k ops t')"
| "avl_run k (Del x # ops) t =
     (case avl_delete k x t of Raised e t' \<Rightarrow> Raised e t' | Returned t' \<Rightarrow> avl_run k ops t')"

fun rbt_run :: "('a \<Rightarrow> 'k::linorder) \<Rightarrow> 'a op list \<Rightarrow> 'a rbt \<Rightarrow> error + 'a rbt" where
  "rbt_run k [] t = Inr t"
| "rbt_run k (Ins x # ops) t =
     (case rbt_insert k x t of Inl e \<Rightarrow> Inl e | Inr t' \<Rightarrow> rbt_run k ops t')"
| "rbt_run k (Del x # ops) t =
     (case rbt_delete k x t of Inl e \<Rightarrow> Inl e | Inr (t', out) \<Rightarrow> rbt_run k ops t')"

section \<open>AVL delete\<close>

text \<open>
  C3: inserting 2, 1, 3, 4 into the empty AVL tree and deleting 2 raises AttributeError
  (\<^verbatim>\<open>replacement.value\<close>): the replacement 1 has been unlinked, nothing has been
  rebalanced, and the tree left behind has a root with balance factor -2, by its cached
  heights and by its real ones.
\<close>

theorem avl_delete_leaves_unbalanced:
  "avl_run (\<lambda>x. x) [Ins 2, Ins 1, Ins 3, Ins 4, Del (2::int)] ANil
     = Raised AttributeError (ANode ANil 2 3 (ANode ANil 3 2 (ANode ANil 4 1 ANil)))
   \<and> balance_factor (ANode ANil (2::int) 3 (ANode ANil 3 2 (ANode ANil 4 1 ANil))) = - 2
   \<and> \<not> all_balanced (ANode ANil (2::int) 3 (ANode ANil 3 2 (ANode ANil 4 1 ANil)))
   \<and> \<not> really_balanced (ANode ANil (2::int) 3 (ANode ANil 3 2 (ANode ANil 4 1 ANil)))"
  by code_simp

section \<open>The list searches at their limits\<close>

lemma binary_search_stuck:
  "binary_search d text_key [song_A, song_B, song_C] song_A 0 (Some 0) = Inl RecursionError"
  by (induction d) (simp_all add: py_index_def)

text \<open>
  C5: the list \<open>[A, B, C]\<close> is sorted and contains \<open>A\<close>, yet binary search for \<open>A\<close> returns
  no index: after the first probe it calls itself with \<^verbatim>\<open>high = 0\<close>, which
  \<^verbatim>\<open>if not high\<close> resets to the last index, and it recurses on the same interval until
  the recursion limit is hit, whatever that limit is.
\<close>

theorem binary_search_present_recursion_error:
  "sorted (map text_key [song_A, song_B, song_C])
   \<and> text_key song_A = text_key ([song_A, song_B, song_C] ! 0)
   \<and> binary_search d text_key [song_A, song_B, song_C] song_A 0 None = Inl RecursionError"
  by (cases d) (simp_all add: py_index_def binary_search_stuck)

text \<open>The same reset makes ternary search fail, for a present and for an absent target.\<close>

lemma ternary_search_stuck:
  "ternary_search d (\<lambda>x. x) [1, 3, 5, 7 :: int] 1 0 (Some 0) = Inl RecursionError"
  by (induction d) (simp_all add: py_index_def)

lemma ternary_search_present_recursion_error:
  "ternary_search d (\<lambda>x. x) [1, 3, 5, 7 :: int] 1 0 None = Inl RecursionError"
  by (cases d) (simp_all add: py_index_def ternary_search_stuck)

lemma binary_search_stuck_absent:
  "binary_search d (\<lambda>x. x) [1, 3 :: int] 2 1 (Some 0) = Inl RecursionError"
  by (induction d) (simp_all add: py_index_def)

text \<open>Exponential search hands an absent target to the binary search and fails with it.\<close>

lemma exponential_search_absent_recursion_error:
  "exponential_search d (\<lambda>x. x) [1, 3 :: int] 2 = Some (Inl RecursionError)"
proof -
  have "exp_double (\<lambda>x. x) [1, 3 :: int] 2 1 = Some (Inr 1)"
    by (subst exp_double.simps) (simp add: py_index_def)
  moreover have "binary_search d (\<lambda>x. x) [1, 3 :: int] 2 0 (Some 1) = Inl RecursionError"
  proof (cases d)
    case (Suc d')
    then show ?thesis
      by (cases d') (simp_all add: py_index_def binary_search_stuck_absent)
  qed simp
  ultimately show ?thesis
    by (simp add: exponential_search_def py_index_def)
qed

lemma fibonaccianSearch_Nil: "fibonaccianSearch k [] t None = Some (Inl IndexError)"
proof -
  have "fib_grow 0 0 1 1 = Some (0, 1, 1)"
    by (subst fib_grow.simps) simp
  moreover have "fib_probe k [] t 0 0 1 1 (- 1) = Some (Inr (Inr 1))"
    by (subst fib_probe.simps) simp
  ultimately show ?thesis
    by (simp add: fibonaccianSearch_def)
qed

text \<open>
  C7: on the empty list exponential search raises IndexError (it reads \<^verbatim>\<open>songs[0]\<close>
  first) and so does Fibonacci search (it reads \<^verbatim>\<open>songs[n-1]\<close> last); insertion sort
  returns \<^verbatim>\<open>None\<close>, not the list, for the empty list and for a single element.
\<close>

theorem boundary_sizes_fail:
  "exponential_search d k [] t = Some (Inl IndexError)
   \<and> fibonaccianSearch k [] t None = Some (Inl IndexError)
   \<and> insertion_sort k [] = None
   \<and> insertion_sort k [x] = None"
  by (simp add: exponential_search_def fibonaccianSearch_Nil insertion_sort_def)

text \<open>
  C6: on a list of at most one element, which is sorted already, merge sort returns the
  list and insertion sort returns \<^verbatim>\<open>None\<close>: the two strategies do not produce the same
  output, and insertion sort does not hand back the sorted sequence.
\<close>

theorem insertion_sort_differs_from_merge_sort:
  "sorted (map k [x]) \<and> merge_sort k [x] = [x] \<and> insertion_sort k [x] = None
   \<and> merge_sort k [] = [] \<and> insertion_sort k [] = None"
  by (simp add: insertion_sort_def)

section \<open>Deleting what is not there\<close>

lemma rbt_search_path_Some:
  "rbt_search_path k s t p = Some (n, p') \<Longrightarrow>
     (case n of NIL \<Rightarrow> False | RBNode c l x r \<Rightarrow> k x = k s \<and> x \<in> set (rb_inorder t))"
proof (induction t arbitrary: p)
  case NIL
  then show ?case by simp
next
  case (RBNode c l x r)
  show ?case
  proof (cases "k x = k s")
    case True
    with RBNode.prems show ?thesis by auto
  next
    case False
    show ?thesis
    proof (cases "k s < k x")
      case True
      with False RBNode.prems RBNode.IH(1)[of "RFrame LeftChild c x r # p"] show ?thesis
        by (cases n) auto
    next
      case ge: False
      with False RBNode.prems RBNode.IH(2)[of "RFrame RightChild c x l # p"] show ?thesis
        by (cases n) auto
    qed
  qed
qed

lemma avl_search_path_Some:
  "avl_search_path k s t p = Some (n, p') \<Longrightarrow>
     (case n of ANil \<Rightarrow> False | ANode l x h r \<Rightarrow> k x = k s \<and> x \<in> set (avl_inorder t))"
proof (induction t arbitrary: p)
  case ANil
  then show ?case by simp
next
  case (ANode l x h r)
  show ?case
  proof (cases "k s = k x")
    case True
    with ANode.prems show ?thesis by auto
  next
    case False
    show ?thesis
    proof (cases "k s < k x")
      case True
      with False ANode.prems ANode.IH(1)[of "AFrame LeftChild x h r # p"] show ?thesis
        by (cases n) auto
    next
      case ge: False
      with False ANode.prems ANode.IH(2)[of "AFrame RightChild x h l # p"] show ?thesis
        by (cases n) auto
    qed
  qed
qed

lemma rbt_search_path_absent:
  "\<forall>x\<in>set (rb_inorder t). k x \<noteq> k s \<Longrightarrow> rbt_search_path k s t p = None"
  by (cases "rbt_search_path k s t p") (auto dest!: rbt_search_path_Some split: rbt.splits)

lemma avl_search_path_absent:
  "\<forall>x\<in>set (avl_inorder t). k x \<noteq> k s \<Longrightarrow> avl_search_path k s t p = None"
  by (cases "avl_search_path k s t p") (auto dest!: avl_search_path_Some split: avl.splits)

text \<open>
  C8, as the code has it: when no song of the playlist has the title, \<^verbatim>\<open>delete_song\<close>
  prints its not-found line, returns, and leaves the app as it was; when no song of a
  red-black tree has the key of the probe, its \<^verbatim>\<open>delete\<close> prints its not-found line,
  returns, and leaves the tree as it was; when no song of an AVL tree has the key of
  the probe, its \<^verbatim>\<open>delete\<close> raises the exception "Value not stored in tree" and leaves
  the tree as it was. (The unbalanced tree has no delete.)
\<close>

theorem delete_absent_no_change:
  "(playlists app p = Some pl \<and> (\<forall>s\<in>set (songs pl). title s \<noteq> t) \<longrightarrow>
      delete_song app p t = Inr (app, [NotFoundInLibrary t]))
   \<and> ((\<forall>x\<in>set (rb_inorder rt). k x \<noteq> k s) \<longrightarrow>
      rbt_delete k s rt = Inr (rt, [NotFoundInTree s]))
   \<and> ((\<forall>x\<in>set (avl_inorder av). k x \<noteq> k s) \<longrightarrow>
      avl_delete k s av = Raised ValueNotStored av)"
proof (intro conjI impI)
  assume "playlists app p = Some pl \<and> (\<forall>s\<in>set (songs pl). title s \<noteq> t)"
  then have "playlists app p = Some pl" "find (\<lambda>s. title s = t) (songs pl) = None"
    by (auto simp: find_None_iff)
  then show "delete_song app p t = Inr (app, [NotFoundInLibrary t])"
    by (simp add: delete_song_def)
next
  assume "\<forall>x\<in>set (rb_inorder rt). k x \<noteq> k s"
  then show "rbt_delete k s rt = Inr (rt, [NotFoundInTree s])"
    by (simp add: rbt_delete_def rbt_search_path_absent)
next
  assume "\<forall>x\<in>set (avl_inorder av). k x \<noteq> k s"
  then show "avl_delete k s av = Raised ValueNotStored av"
    by (simp add: avl_delete_def avl_search_path_absent)
qed

lemma title_examples:
  "title song_A = PStr ''A''" "title song_B = PStr ''B''" "title song_C = PStr ''C''"
  by (simp_all add: song_A_def song_B_def song_C_def mk_song_def)

theorem delete_absent_no_change_witness:
  "delete_song \<lparr>playlists = [''P'' \<mapsto> (new_playlist ''P'')\<lparr>songs := [song_A]\<rparr>]\<rparr> ''P'' (PStr ''B'')
     = Inr (\<lparr>playlists = [''P'' \<mapsto> (new_playlist ''P'')\<lparr>songs := [song_A]\<rparr>]\<rparr>,
            [NotFoundInLibrary (PStr ''B'')])
   \<and> rbt_delete text_key song_B (RBNode BLACK NIL song_A NIL)
     = Inr (RBNode BLACK NIL song_A NIL, [NotFoundInTree song_B])
   \<and> avl_delete text_key song_B (ANode ANil song_A 1 ANil)
     = Raised ValueNotStored (ANode ANil song_A 1 ANil)"
  using delete_absent_no_change
    [of "\<lparr>playlists = [''P'' \<mapsto> (new_playlist ''P'')\<lparr>songs := [song_A]\<rparr>]\<rparr>" "''P''"
        "(new_playlist ''P'')\<lparr>songs := [song_A]\<rparr>" "PStr ''B''"
        "RBNode BLACK NIL song_A NIL" text_key song_B "ANode ANil song_A 1 ANil"]
  by (simp add: new_playlist_def title_examples)

text \<open>
  Deleting an absent song from an AVL tree does not return: the call ends with the
  exception.
\<close>

theorem avl_delete_absent_raises:
  "avl_delete text_key (probe (PStr ''B'')) (ANode ANil song_A 1 ANil)
     = Raised ValueNotStored (ANode ANil song_A 1 ANil)"
  by (simp add: avl_delete_def text_key_def skey_def probe_def mk_song_def song_A_def)

section \<open>Shuffling\<close>

text \<open>
  C9: with a permutation function that keeps the multiset of every list, shuffling an
  existing playlist replaces its insertion-order list by a list with the same multiset
  of songs and changes nothing else: the sorted list, the three trees, the total
  playtime and the name of the playlist are the same, and so is every other playlist.
\<close>

theorem shuffle_playlist_frame:
  assumes "\<And>xs. mset (permutation xs) = mset xs" and "playlists app p = Some pl"
  shows "\<exists>pl'. shuffle_playlist permutation app p = Inr (app\<lparr>playlists := (playlists app)(p \<mapsto> pl')\<rparr>)
           \<and> mset (songs_not_sorted pl') = mset (songs_not_sorted pl)
           \<and> songs pl' = songs pl \<and> bst pl' = bst pl \<and> rbt pl' = rbt pl \<and> avl pl' = avl pl
           \<and> total_time pl' = total_time pl \<and> name pl' = name pl"
proof -
  let ?pl' = "pl\<lparr>songs_not_sorted := permutation (songs_not_sorted pl)\<rparr>"
  have "shuffle_playlist permutation app p = Inr (app\<lparr>playlists := (playlists app)(p \<mapsto> ?pl')\<rparr>)"
    using assms(2) by (simp add: shuffle_playlist_def)
  moreover have "mset (songs_not_sorted ?pl') = mset (songs_not_sorted pl)"
    using assms(1) by simp
  ultimately show ?thesis
    by (intro exI[of _ ?pl']) simp
qed

theorem shuffle_playlist_frame_witness:
  "\<exists>pl'. shuffle_playlist rev
            \<lparr>playlists = [''P'' \<mapsto> (new_playlist ''P'')\<lparr>songs_not_sorted := [song_B, song_A]\<rparr>]\<rparr> ''P''
          = Inr (\<lparr>playlists = [''P'' \<mapsto> pl']\<rparr>)
        \<and> mset (songs_not_sorted pl') = {#song_B, song_A#}
        \<and> songs pl' = [] \<and> bst pl' = BNil \<and> rbt pl' = NIL \<and> avl pl' = ANil
        \<and> total_time pl' = 0 \<and> name pl' = ''P''"
  using shuffle_playlist_frame
    [of rev "\<lparr>playlists = [''P'' \<mapsto> (new_playlist ''P'')\<lparr>songs_not_sorted := [song_B, song_A]\<rparr>]\<rparr>"
        "''P''" "(new_playlist ''P'')\<lparr>songs_not_sorted := [song_B, song_A]\<rparr>"]
  by (simp add: new_playlist_def)

section \<open>Insertion keeps the trees sorted\<close>

text \<open>
  Where a new element ends up among the elements of a sorted sequence: after everything
  that is not greater, before everything that is greater.
\<close>

definition place :: "('a \<Rightarrow> 'k::linorder) \<Rightarrow> 'a \<Rightarrow> 'a list \<Rightarrow> 'a list" where
  "place k x ys = filter (\<lambda>y. k y \<le> k x) ys @ x # filter (\<lambda>y. k x < k y) ys"

lemma place_before: "\<forall>z\<in>set bs. k x < k z \<Longrightarrow> place k x (as @ bs) = place k x as @ bs"
  by (auto simp: place_def filter_empty_conv intro!: filter_id_conv[THEN iffD2])

lemma place_after: "\<forall>z\<in>set as. k z \<le> k x \<Longrightarrow> place k x (as @ bs) = as @ place k x bs"
  by (auto simp: place_def filter_empty_conv intro!: filter_id_conv[THEN iffD2])

lemma place_between:
  "\<forall>z\<in>set as. k z \<le> k x \<Longrightarrow> \<forall>z\<in>set bs. k x < k z \<Longrightarrow> place k x (as @ bs) = as @ x # bs"
  by (simp add: place_after) (auto simp: place_def filter_empty_conv intro!: filter_id_conv[THEN iffD2])

lemma mset_place: "mset (place k x ys) = add_mset x (mset ys)"
proof -
  have "mset (filter (\<lambda>y. k y \<le> k x) ys) + mset (filter (\<lambda>y. k x < k y) ys) = mset ys"
    by (induction ys) auto
  then show ?thesis
    by (simp add: place_def)
qed

lemma sorted_place: "sorted (map k ys) \<Longrightarrow> sorted (map k (place k x ys))"
  by (auto simp: place_def sorted_append filter_map[symmetric] comp_def sorted_filter)

lemma filter_place:
  "filter (\<lambda>y. k y = c) (place k x ys) = filter (\<lambda>y. k y = c) (ys @ [x])"
proof -
  have le: "filter (\<lambda>y. k y = c) (filter (\<lambda>y. k y \<le> k x) ys) =
            (if c \<le> k x then filter (\<lambda>y. k y = c) ys else [])"
    by (induction ys) auto
  have gt: "filter (\<lambda>y. k y = c) (filter (\<lambda>y. k x < k y) ys) =
            (if k x < c then filter (\<lambda>y. k y = c) ys else [])"
    by (induction ys) auto
  show ?thesis
    unfolding place_def filter_append filter.simps le gt by auto
qed

lemma place_sort_key: "place k x (sort_key k xs) = sort_key k (xs @ [x])"
proof (rule properties_for_sort_key[symmetric])
  show "mset (place k x (sort_key k xs)) = mset (xs @ [x])"
    by (simp add: mset_place)
  show "sorted (map k (place k x (sort_key k xs)))"
    by (simp add: sorted_place)
  fix e
  have "filter (\<lambda>y. k y = k e) (place k x (sort_key k xs)) = filter (\<lambda>y. k y = k e) (xs @ [x])"
    by (simp add: filter_place sort_key_stable)
  then show "filter (\<lambda>y. k e = k y) (place k x (sort_key k xs)) = filter (\<lambda>y. k e = k y) (xs @ [x])"
    by (simp add: eq_commute)
qed

subsection \<open>The unbalanced tree\<close>

lemma sorted_mid_iff:
  "sorted (map k (as @ y # bs)) \<longleftrightarrow>
     sorted (map k as) \<and> sorted (map k bs) \<and> (\<forall>a\<in>set as. k a \<le> k y) \<and> (\<forall>b\<in>set bs. k y \<le> k b)"
  by (fastforce simp: sorted_append)

lemma bst_insert_recursive_ok:
  "t \<noteq> BNil \<Longrightarrow> sorted (map k (bst_inorder t)) \<Longrightarrow> length (bst_inorder t) \<le> d \<Longrightarrow>
     \<exists>t'. bst_insert_recursive d k t x = Inr t' \<and> bst_inorder t' = place k x (bst_inorder t)"
proof (induction t arbitrary: d)
  case BNil
  then show ?case by simp
next
  case (BNode l y r)
  from BNode.prems(3) obtain d' where d: "d = Suc d'"
    by (cases d) auto
  with BNode.prems(3) have len: "length (bst_inorder l) \<le> d'" "length (bst_inorder r) \<le> d'"
    by auto
  from BNode.prems(2) have s: "sorted (map k (bst_inorder l))" "sorted (map k (bst_inorder r))"
    "\<forall>a\<in>set (bst_inorder l). k a \<le> k y" "\<forall>b\<in>set (bst_inorder r). k y \<le> k b"
    using sorted_mid_iff[of k "bst_inorder l" y "bst_inorder r"] by auto
  show ?case
  proof (cases "k x < k y")
    case True
    with s have after: "\<forall>z\<in>set (y # bst_inorder r). k x < k z"
      by auto
    have "\<exists>l'. bst_insert_recursive d k (BNode l y r) x = Inr (BNode l' y r)
            \<and> bst_inorder l' = place k x (bst_inorder l)"
    proof (cases l)
      case BNil
      with True d show ?thesis by (simp add: place_def)
    next
      case (BNode a b c)
      with BNode.IH(1)[OF _ s(1) len(1)] obtain l' where
        "bst_insert_recursive d' k l x = Inr l'" "bst_inorder l' = place k x (bst_inorder l)"
        by auto
      with True d BNode show ?thesis by simp
    qed
    then obtain l' where l': "bst_insert_recursive d k (BNode l y r) x = Inr (BNode l' y r)"
      "bst_inorder l' = place k x (bst_inorder l)"
      by auto
    have "bst_inorder (BNode l' y r) = place k x (bst_inorder l) @ y # bst_inorder r"
      using l'(2) by simp
    also have "\<dots> = place k x (bst_inorder l @ y # bst_inorder r)"
      using place_before[OF after] by simp
    finally show ?thesis using l'(1) by simp
  next
    case False
    with s have before: "\<forall>z\<in>set (bst_inorder l @ [y]). k z \<le> k x"
      by auto
    have "\<exists>r'. bst_insert_recursive d k (BNode l y r) x = Inr (BNode l y r')
            \<and> bst_inorder r' = place k x (bst_inorder r)"
    proof (cases r)
      case BNil
      with False d show ?thesis by (simp add: place_def)
    next
      case (BNode a b c)
      with BNode.IH(2)[OF _ s(2) len(2)] obtain r' where
        "bst_insert_recursive d' k r x = Inr r'" "bst_inorder r' = place k x (bst_inorder r)"
        by auto
      with False d BNode show ?thesis by simp
    qed
    then obtain r' where r': "bst_insert_recursive d k (BNode l y r) x = Inr (BNode l y r')"
      "bst_inorder r' = place k x (bst_inorder r)"
      by auto
    have "bst_inorder (BNode l y r') = (bst_inorder l @ [y]) @ place k x (bst_inorder r)"
      using r'(2) by simp
    also have "\<dots> = place k x ((bst_inorder l @ [y]) @ bst_inorder r)"
      using place_after[OF before] by simp
    finally show ?thesis using r'(1) by simp
  qed
qed

lemma bst_insert_ok:
  "sorted (map k (bst_inorder t)) \<Longrightarrow> length (bst_inorder t) \<le> d \<Longrightarrow>
     \<exists>t'. bst_insert d k x t = Returned t' \<and> bst_inorder t' = place k x (bst_inorder t)"
proof (cases t)
  case BNil
  then show ?thesis by (simp add: bst_insert_def place_def)
next
  case (BNode l y r)
  assume "sorted (map k (bst_inorder t))" "length (bst_inorder t) \<le> d"
  from bst_insert_recursive_ok[OF _ this, of x] BNode show ?thesis
    by (auto simp: bst_insert_def)
qed

lemma fold_place_sort_key: "fold (place k) xs (sort_key k ys) = sort_key k (ys @ xs)"
  by (induction xs arbitrary: ys) (simp_all add: place_sort_key)

lemma bst_run_inserts:
  "bst_inorder t = sort_key k ys \<Longrightarrow> length ys + length xs \<le> Suc d \<Longrightarrow>
     \<exists>t'. bst_run d k xs t = Returned t' \<and> bst_inorder t' = sort_key k (ys @ xs)"
proof (induction xs arbitrary: t ys)
  case Nil
  then show ?case by simp
next
  case (Cons x xs)
  have "sorted (map k (bst_inorder t))" "length (bst_inorder t) \<le> d"
    using Cons.prems by simp_all
  from bst_insert_ok[OF this, of x] Cons.prems(1)
  obtain t1 where t1: "bst_insert d k x t = Returned t1" "bst_inorder t1 = sort_key k (ys @ [x])"
    by (auto simp: place_sort_key)
  from Cons.IH[OF t1(2)] Cons.prems(2) t1(1) show ?case
    by simp
qed

text \<open>
  The iterator yields the nodes of the tree root first, then those of the left subtree,
  then those of the right one.
\<close>

lemma node_depth_first_iter_preorder:
  "map bst_song (node_depth_first_iter stack) = concat (map bst_preorder stack)"
proof (induction stack rule: node_depth_first_iter.induct)
  case 1
  then show ?case by simp
next
  case (2 stack)
  then show ?case by simp
next
  case (3 l x r stack)
  then show ?case by (cases l; cases r) simp_all
qed

lemma mset_bst_preorder: "mset (bst_preorder t) = mset (bst_inorder t)"
  by (induction t) simp_all

subsection \<open>The AVL tree\<close>

text \<open>
  The invariant of the AVL tree: every node caches one more than the larger of its
  children's cached heights, and these differ by at most one. \<open>near_ok\<close> allows a
  difference of two at the root, which is what \<^verbatim>\<open>rebalance\<close> repairs.
\<close>

fun avl_ok :: "'a avl \<Rightarrow> bool" where
  "avl_ok ANil = True"
| "avl_ok (ANode l x h r) =
     (avl_ok l \<and> avl_ok r \<and> h = 1 + max (cached_height l) (cached_height r)
      \<and> \<bar>cached_height l - cached_height r\<bar> \<le> 1)"

fun near_ok :: "'a avl \<Rightarrow> bool" where
  "near_ok ANil = True"
| "near_ok (ANode l x h r) =
     (avl_ok l \<and> avl_ok r \<and> h = 1 + max (cached_height l) (cached_height r)
      \<and> \<bar>cached_height l - cached_height r\<bar> \<le> 2)"

lemma avl_ok_near_ok: "avl_ok t \<Longrightarrow> near_ok t"
  by (cases t) auto

lemma cached_height_nonneg: "avl_ok t \<Longrightarrow> 0 \<le> cached_height t"
  by (induction t) auto

lemma cached_height_pos: "avl_ok (ANode l x h r) \<Longrightarrow> 1 \<le> h"
  using cached_height_nonneg[of l] cached_height_nonneg[of r] by auto

lemma cached_height_0: "avl_ok t \<Longrightarrow> cached_height t \<le> 0 \<Longrightarrow> t = ANil"
  using cached_height_pos by (cases t) fastforce+

lemma avl_ok_real_height: "avl_ok t \<Longrightarrow> cached_height t = real_height t"
  by (induction t) auto

lemma avl_ok_balanced: "avl_ok t \<Longrightarrow> all_balanced t \<and> really_balanced t"
  by (induction t) (auto simp: avl_ok_real_height)

lemma rebalance_balanced:
  "avl_ok t \<Longrightarrow> rebalance t = Inr t"
  by (cases t) (auto simp: Let_def)

lemma rebalance_ANil: "rebalance ANil = Inr ANil"
  by simp

lemma rebalance_near_ok:
  assumes "near_ok t"
  shows "\<exists>t'. rebalance t = Inr t' \<and> avl_ok t' \<and> avl_inorder t' = avl_inorder t
           \<and> (if \<bar>balance_factor t\<bar> \<le> 1 then t' = t
               else cached_height t' = cached_height t \<or> cached_height t' = cached_height t - 1)"
proof (cases t)
  case ANil
  then show ?thesis by simp
next
  case (ANode l x h r)
  note t = ANode
  have "\<bar>balance_factor t\<bar> \<le> 1 \<or> balance_factor t = 2 \<or> balance_factor t = - 2"
    using assms t by simp arith
  then consider "\<bar>balance_factor t\<bar> \<le> 1" | "balance_factor t = 2" | "balance_factor t = - 2"
    by blast
  then show ?thesis
  proof cases
    case 1
    with assms t show ?thesis by (auto simp: Let_def)
  next
    case 2
    with assms t cached_height_nonneg[of r] obtain ll lx lh lr where l: "l = ANode ll lx lh lr"
      by (cases l) auto
    show ?thesis
    proof (cases "balance_factor l = - 1")
      case True
      with assms t l cached_height_nonneg[of ll] obtain a b c d where lr: "lr = ANode a b c d"
        by (cases lr) auto
      with True 2 assms t l show ?thesis
        by (auto simp: Let_def max_def split: if_splits)
    next
      case False
      with 2 assms t l show ?thesis
        by (auto simp: Let_def max_def split: if_splits)
    qed
  next
    case 3
    with assms t cached_height_nonneg[of l] obtain rl rx rh rr where r: "r = ANode rl rx rh rr"
      by (cases r) auto
    show ?thesis
    proof (cases "balance_factor r = 1")
      case True
      with assms t r cached_height_nonneg[of rr] obtain a b c d where rl: "rl = ANode a b c d"
        by (cases rl) auto
      with True 3 assms t r show ?thesis
        by (auto simp: Let_def max_def split: if_splits)
    next
      case False
      with 3 assms t r show ?thesis
        by (auto simp: Let_def max_def split: if_splits)
    qed
  qed
qed

fun a_before :: "'a aframe list \<Rightarrow> 'a list" where
  "a_before [] = []"
| "a_before (AFrame LeftChild x h r # up) = a_before up"
| "a_before (AFrame RightChild x h l # up) = a_before up @ avl_inorder l @ [x]"

fun a_after :: "'a aframe list \<Rightarrow> 'a list" where
  "a_after [] = []"
| "a_after (AFrame LeftChild x h r # up) = x # avl_inorder r @ a_after up"
| "a_after (AFrame RightChild x h l # up) = a_after up"

lemma avl_plug_inorder:
  "avl_inorder (avl_plug t path) = a_before path @ avl_inorder t @ a_after path"
  by (induction t path rule: avl_plug.induct) auto

fun apath_ok :: "int \<Rightarrow> 'a aframe list \<Rightarrow> bool" where
  "apath_ok h0 [] = True"
| "apath_ok h0 (AFrame d x h sib # up) =
     (avl_ok sib \<and> \<bar>h0 - cached_height sib\<bar> \<le> 1 \<and> apath_ok (1 + max h0 (cached_height sib)) up)"

definition fits :: "int \<Rightarrow> int \<Rightarrow> int \<Rightarrow> bool" where
  "fits h0 a b \<longleftrightarrow>
     \<bar>a - b\<bar> \<le> 2 \<and> (\<bar>a - b\<bar> \<le> 1 \<longrightarrow> 1 + max a b = h0 \<or> 1 + max a b = h0 + 1)
     \<and> (\<bar>a - b\<bar> = 2 \<longrightarrow> max a b = h0)"

definition focus_ok :: "int \<Rightarrow> 'a avl \<Rightarrow> 'a avl \<Rightarrow> bool" where
  "focus_ok h0 l r \<longleftrightarrow>
     (\<exists>l' r'. rebalance l = Inr l' \<and> rebalance r = Inr r' \<and> avl_ok l' \<and> avl_ok r'
        \<and> avl_inorder l' = avl_inorder l \<and> avl_inorder r' = avl_inorder r
        \<and> fits h0 (cached_height l') (cached_height r'))"

lemma fits_next:
  assumes "a' = h0 \<or> a' = h0 + 1" "\<bar>h0 - b'\<bar> \<le> 1"
  shows "fits (1 + max h0 b') a' b'" "fits (1 + max h0 b') b' a'"
  using assms unfolding fits_def by (auto simp: max_def)

lemma focus_ok_up:
  fixes x :: 'a
  assumes "avl_ok l'" "avl_ok r'" "fits h0 (cached_height l') (cached_height r')"
    "avl_ok sib" "\<bar>h0 - cached_height sib\<bar> \<le> 1"
  defines "c2 \<equiv> ANode l' x (1 + max (cached_height l') (cached_height r')) r'"
  shows "focus_ok (1 + max h0 (cached_height sib)) c2 sib"
    and "focus_ok (1 + max h0 (cached_height sib)) sib c2"
    and "\<exists>t. rebalance c2 = Inr t \<and> avl_ok t \<and> avl_inorder t = avl_inorder c2"
proof -
  have "near_ok c2"
    using assms(1-3) by (auto simp: c2_def fits_def)
  from rebalance_near_ok[OF this] obtain c2' where c2':
    "rebalance c2 = Inr c2'" "avl_ok c2'" "avl_inorder c2' = avl_inorder c2"
    "if \<bar>balance_factor c2\<bar> \<le> 1 then c2' = c2
     else cached_height c2' = cached_height c2 \<or> cached_height c2' = cached_height c2 - 1"
    by blast
  have h: "cached_height c2' = h0 \<or> cached_height c2' = h0 + 1"
    using c2'(4) assms(3) unfolding fits_def c2_def
    by (auto split: if_splits simp: max_def)
  have sib: "rebalance sib = Inr sib"
    using assms(4) by (rule rebalance_balanced)
  show "focus_ok (1 + max h0 (cached_height sib)) c2 sib"
    unfolding focus_ok_def using c2'(1-3) sib assms(4) fits_next(1)[OF h assms(5)] by auto
  show "focus_ok (1 + max h0 (cached_height sib)) sib c2"
    unfolding focus_ok_def using c2'(1-3) sib assms(4) fits_next(2)[OF h assms(5)] by auto
  show "\<exists>t. rebalance c2 = Inr t \<and> avl_ok t \<and> avl_inorder t = avl_inorder c2"
    using c2' by blast
qed

declare rebalance.simps [simp del] restore_balance.simps [simp del]

lemma restore_balance_Nil:
  "rebalance l = Inr l' \<Longrightarrow> rebalance r = Inr r' \<Longrightarrow>
   rebalance (ANode l' x (1 + max (cached_height l') (cached_height r')) r') = Inr t \<Longrightarrow>
     restore_balance (ANode l x h r) [] = Returned t"
  by (subst restore_balance.simps) (simp add: Let_def)

lemma restore_balance_Left:
  "rebalance l = Inr l' \<Longrightarrow> rebalance r = Inr r' \<Longrightarrow>
     restore_balance (ANode l x h r) (AFrame LeftChild px ph pr # up) =
     restore_balance (ANode (ANode l' x (1 + max (cached_height l') (cached_height r')) r') px ph pr) up"
  by (subst restore_balance.simps) (simp add: Let_def)

lemma restore_balance_Right:
  "rebalance l = Inr l' \<Longrightarrow> rebalance r = Inr r' \<Longrightarrow>
     restore_balance (ANode l x h r) (AFrame RightChild px ph pl # up) =
     restore_balance (ANode pl px ph (ANode l' x (1 + max (cached_height l') (cached_height r')) r')) up"
  by (subst restore_balance.simps) (simp add: Let_def)

lemma restore_balance_ok:
  "focus_ok h0 l r \<Longrightarrow> apath_ok h0 path \<Longrightarrow>
     \<exists>t. restore_balance (ANode l x h r) path = Returned t \<and> avl_ok t
       \<and> avl_inorder t = avl_inorder (avl_plug (ANode l x h r) path)"
proof (induction path arbitrary: l x h r h0)
  case Nil
  from Nil.prems(1) obtain l' r' where f: "rebalance l = Inr l'" "rebalance r = Inr r'"
    "avl_ok l'" "avl_ok r'" "avl_inorder l' = avl_inorder l" "avl_inorder r' = avl_inorder r"
    "fits h0 (cached_height l') (cached_height r')"
    unfolding focus_ok_def by blast
  have "near_ok (ANode l' x (1 + max (cached_height l') (cached_height r')) r')"
    using f by (auto simp: fits_def)
  from rebalance_near_ok[OF this] obtain t where
    "rebalance (ANode l' x (1 + max (cached_height l') (cached_height r')) r') = Inr t"
    "avl_ok t" "avl_inorder t = avl_inorder l' @ x # avl_inorder r'"
    by auto
  with f restore_balance_Nil[OF f(1,2) this(1), of h] show ?case
    by simp
next
  case (Cons fr up)
  from Cons.prems(1) obtain l' r' where f: "rebalance l = Inr l'" "rebalance r = Inr r'"
    "avl_ok l'" "avl_ok r'" "avl_inorder l' = avl_inorder l" "avl_inorder r' = avl_inorder r"
    "fits h0 (cached_height l') (cached_height r')"
    unfolding focus_ok_def by blast
  obtain d px ph sib where fr: "fr = AFrame d px ph sib"
    by (cases fr)
  let ?c2 = "ANode l' x (1 + max (cached_height l') (cached_height r')) r'"
  from Cons.prems(2) fr have sib: "avl_ok sib" "\<bar>h0 - cached_height sib\<bar> \<le> 1"
    "apath_ok (1 + max h0 (cached_height sib)) up"
    by auto
  note up = focus_ok_up[OF f(3,4,7) sib(1,2), of x]
  show ?case
  proof (cases d)
    case LeftChild
    from Cons.IH[OF up(1) sib(3), of px ph] f fr LeftChild
      restore_balance_Left[OF f(1,2), of x h px ph sib up]
    show ?thesis
      by (auto simp: avl_plug_inorder)
  next
    case RightChild
    from Cons.IH[OF up(2) sib(3), of px ph] f fr RightChild
      restore_balance_Right[OF f(1,2), of x h px ph sib up]
    show ?thesis
      by (auto simp: avl_plug_inorder)
  qed
qed

lemma avl_descend_props:
  "avl_ok t \<Longrightarrow> apath_ok (cached_height t) path \<Longrightarrow> sorted (map k (avl_inorder t)) \<Longrightarrow>
   \<forall>y\<in>set (a_before path). k y \<le> k v \<Longrightarrow> \<forall>y\<in>set (a_after path). k v < k y \<Longrightarrow>
     apath_ok 0 (avl_descend k v t path)
     \<and> a_before (avl_descend k v t path) @ a_after (avl_descend k v t path)
         = a_before path @ avl_inorder t @ a_after path
     \<and> (\<forall>y\<in>set (a_before (avl_descend k v t path)). k y \<le> k v)
     \<and> (\<forall>y\<in>set (a_after (avl_descend k v t path)). k v < k y)"
proof (induction t arbitrary: path)
  case ANil
  then show ?case by simp
next
  case (ANode l x h r)
  from ANode.prems(3) have s: "sorted (map k (avl_inorder l))" "sorted (map k (avl_inorder r))"
    "\<forall>a\<in>set (avl_inorder l). k a \<le> k x" "\<forall>b\<in>set (avl_inorder r). k x \<le> k b"
    using sorted_mid_iff[of k "avl_inorder l" x "avl_inorder r"] by auto
  from ANode.prems(1) have ok: "avl_ok l" "avl_ok r" "h = 1 + max (cached_height l) (cached_height r)"
    "\<bar>cached_height l - cached_height r\<bar> \<le> 1"
    by auto
  show ?case
  proof (cases "k v < k x")
    case True
    have a: "apath_ok (cached_height l) (AFrame LeftChild x h r # path)"
      using ok ANode.prems(2) by simp
    have b: "\<forall>y\<in>set (a_before (AFrame LeftChild x h r # path)). k y \<le> k v"
      using ANode.prems(4) by simp
    have c: "\<forall>y\<in>set (a_after (AFrame LeftChild x h r # path)). k v < k y"
      using ANode.prems(5) s(4) True by auto
    have d: "avl_descend k v (ANode l x h r) path = avl_descend k v l (AFrame LeftChild x h r # path)"
      using True by simp
    show ?thesis
      unfolding d using ANode.IH(1)[OF ok(1) a s(1) b c] by simp
  next
    case False
    have "max (cached_height r) (cached_height l) = max (cached_height l) (cached_height r)"
      by simp
    then have a: "apath_ok (cached_height r) (AFrame RightChild x h l # path)"
      using ok ANode.prems(2) by simp
    have b: "\<forall>y\<in>set (a_before (AFrame RightChild x h l # path)). k y \<le> k v"
      using ANode.prems(4) s(3) False by auto
    have c: "\<forall>y\<in>set (a_after (AFrame RightChild x h l # path)). k v < k y"
      using ANode.prems(5) by simp
    have d: "avl_descend k v (ANode l x h r) path = avl_descend k v r (AFrame RightChild x h l # path)"
      using False by simp
    show ?thesis
      unfolding d using ANode.IH(2)[OF ok(2) a s(2) b c] by simp
  qed
qed

lemma avl_insert_ok:
  assumes "avl_ok t" "sorted (map k (avl_inorder t))"
  shows "\<exists>t'. avl_insert k v t = Returned t' \<and> avl_ok t'
           \<and> avl_inorder t' = place k v (avl_inorder t)"
proof -
  let ?p = "avl_descend k v t []"
  from avl_descend_props[OF assms(1) _ assms(2), of "[]" v]
  have p: "apath_ok 0 ?p" "a_before ?p @ a_after ?p = avl_inorder t"
    "\<forall>y\<in>set (a_before ?p). k y \<le> k v" "\<forall>y\<in>set (a_after ?p). k v < k y"
    by auto
  have "focus_ok 0 ANil ANil"
    by (simp add: focus_ok_def fits_def rebalance.simps)
  from restore_balance_ok[OF this p(1), of v 1] obtain t' where
    t': "restore_balance (ANode ANil v 1 ANil) ?p = Returned t'" "avl_ok t'"
    "avl_inorder t' = avl_inorder (avl_plug (ANode ANil v 1 ANil) ?p)"
    by blast
  have "avl_inorder t' = a_before ?p @ v # a_after ?p"
    using t'(3) by (simp add: avl_plug_inorder)
  also have "\<dots> = place k v (a_before ?p @ a_after ?p)"
    using place_between[OF p(3,4)] by simp
  finally show ?thesis
    using t'(1,2) p(2) by (simp add: avl_insert_def)
qed

subsection \<open>The red-black tree\<close>

fun bheight :: "'a rbt \<Rightarrow> nat" where
  "bheight NIL = 0"
| "bheight (RBNode c l x r) = bheight l + (if c = BLACK then 1 else 0)"

fun inv_bh :: "'a rbt \<Rightarrow> bool" where
  "inv_bh NIL = True"
| "inv_bh (RBNode c l x r) = (inv_bh l \<and> inv_bh r \<and> bheight l = bheight r)"

fun no_red_red :: "'a rbt \<Rightarrow> bool" where
  "no_red_red NIL = True"
| "no_red_red (RBNode c l x r) =
     ((c = RED \<longrightarrow> color_of l = BLACK \<and> color_of r = BLACK) \<and> no_red_red l \<and> no_red_red r)"

fun rb_before :: "'a rframe list \<Rightarrow> 'a list" where
  "rb_before [] = []"
| "rb_before (RFrame LeftChild c x r # up) = rb_before up"
| "rb_before (RFrame RightChild c x l # up) = rb_before up @ rb_inorder l @ [x]"

fun rb_after :: "'a rframe list \<Rightarrow> 'a list" where
  "rb_after [] = []"
| "rb_after (RFrame LeftChild c x r # up) = x # rb_inorder r @ rb_after up"
| "rb_after (RFrame RightChild c x l # up) = rb_after up"

lemma rb_plug_inorder:
  "rb_inorder (rb_plug t path) = rb_before path @ rb_inorder t @ rb_after path"
  by (induction t path rule: rb_plug.induct) auto

fun top_color :: "color \<Rightarrow> 'a rframe list \<Rightarrow> color" where
  "top_color a [] = a"
| "top_color a (RFrame d c x s # up) = c"

fun rpath_ok :: "color \<Rightarrow> nat \<Rightarrow> 'a rframe list \<Rightarrow> bool" where
  "rpath_ok a E [] = True"
| "rpath_ok a E (RFrame d c x sib # up) =
     (no_red_red sib \<and> inv_bh sib \<and> bheight sib = E
      \<and> (c = RED \<longrightarrow> color_of sib = BLACK \<and> top_color a up = BLACK)
      \<and> rpath_ok a (E + (if c = BLACK then 1 else 0)) up)"

lemma color_cases: "c = RED \<or> c = BLACK"
  by (cases c) auto

lemma not_RED [simp]: "c \<noteq> RED \<longleftrightarrow> c = BLACK"
  by (cases c) auto

lemma not_BLACK [simp]: "c \<noteq> BLACK \<longleftrightarrow> c = RED"
  by (cases c) auto

lemma paint_props [simp]:
  "rb_inorder (paint c t) = rb_inorder t"
  "inv_bh (paint c t) = inv_bh t"
  "color_of (paint BLACK t) = BLACK"
  by (cases t; simp)+

lemma no_red_red_paint_BLACK: "no_red_red t \<Longrightarrow> no_red_red (paint BLACK t)"
  by (cases t) auto

lemma bheight_paint_BLACK:
  "bheight (paint BLACK t) = (if color_of t = RED then Suc (bheight t) else bheight t)"
  by (cases t) auto

lemma paint_BLACK_id: "color_of t = BLACK \<Longrightarrow> paint BLACK t = t"
  by (cases t) auto

lemma rb_plug_valid:
  "no_red_red t \<Longrightarrow> inv_bh t \<Longrightarrow> bheight t = E \<Longrightarrow> rpath_ok a E path \<Longrightarrow>
   (color_of t = RED \<longrightarrow> top_color a path = BLACK) \<Longrightarrow>
     no_red_red (rb_plug t path) \<and> inv_bh (rb_plug t path)"
proof (induction t path arbitrary: E rule: rb_plug.induct)
  case (1 t)
  then show ?case by simp
next
  case (2 t c x r path)
  have "no_red_red (rb_plug (RBNode c t x r) path) \<and> inv_bh (rb_plug (RBNode c t x r) path)"
    using "2.prems" by (intro "2.IH"[where E = "E + (if c = BLACK then 1 else 0)"]) auto
  then show ?case by simp
next
  case (3 t c x l path)
  have "no_red_red (rb_plug (RBNode c l x t) path) \<and> inv_bh (rb_plug (RBNode c l x t) path)"
    using "3.prems" by (intro "3.IH"[where E = "E + (if c = BLACK then 1 else 0)"]) auto
  then show ?case by simp
qed

lemma rb_plug_root_black:
  "rpath_ok RED E path \<Longrightarrow> path \<noteq> [] \<Longrightarrow> color_of (rb_plug t path) = BLACK"
proof (induction t path arbitrary: E rule: rb_plug.induct)
  case (1 t)
  then show ?case by simp
next
  case (2 t c x r path)
  then show ?case by (cases path) auto
next
  case (3 t c x l path)
  then show ?case by (cases path) auto
qed

lemma fix_insert_ok:
  "color_of node = RED \<Longrightarrow> no_red_red node \<Longrightarrow> inv_bh node \<Longrightarrow>
   rpath_ok RED (bheight node) path \<Longrightarrow>
     \<exists>t. fix_insert node path = Inr t \<and> no_red_red t \<and> inv_bh t \<and> color_of t = BLACK
       \<and> rb_inorder t = rb_inorder (rb_plug node path)"
proof (induction node path rule: fix_insert.induct)
  case (1 node)
  then show ?case by (simp add: no_red_red_paint_BLACK)
next
  case (2 node d px sib up)
  let ?p = "RFrame d BLACK px sib # up"
  from rb_plug_valid[OF "2.prems"(2,3) refl "2.prems"(4)]
  have "no_red_red (rb_plug node ?p)" "inv_bh (rb_plug node ?p)"
    by auto
  moreover have "color_of (rb_plug node ?p) = BLACK"
    using rb_plug_root_black[OF "2.prems"(4)] by simp
  ultimately show ?case
    by (simp add: paint_BLACK_id)
next
  case (3 node d px sib)
  then show ?case by simp
next
  case (4 node d px sib gc gx uncle up)
  from "4.prems"(1) obtain nl nx nr where node: "node = RBNode RED nl nx nr"
    by (cases node) auto
  let ?h = "bheight node"
  from "4.prems"(4) have f: "no_red_red sib" "inv_bh sib" "bheight sib = ?h" "color_of sib = BLACK"
    "gc = BLACK" "no_red_red uncle" "inv_bh uncle" "bheight uncle = ?h" "rpath_ok RED (Suc ?h) up"
    by auto
  let ?parent = "rb_plug node [RFrame d RED px sib]"
  show ?case
  proof (cases "color_of uncle = RED")
    case True
    let ?n = "RBNode RED (paint BLACK ?parent) gx (paint BLACK uncle)"
    have "color_of ?n = RED" by simp
    moreover have "no_red_red ?n"
      using "4.prems"(2) f by (cases d) (auto simp: no_red_red_paint_BLACK)
    moreover have "inv_bh ?n"
      using "4.prems"(3) f True by (cases d) (auto simp: bheight_paint_BLACK)
    moreover have "rpath_ok RED (bheight ?n) up"
      using f by (cases d) (auto simp: bheight_paint_BLACK)
    ultimately obtain t where t: "fix_insert ?n up = Inr t" "no_red_red t" "inv_bh t"
      "color_of t = BLACK" "rb_inorder t = rb_inorder (rb_plug ?n up)"
      using "4.IH"[OF refl True] by blast
    have "fix_insert node (RFrame d RED px sib # RFrame LeftChild gc gx uncle # up) = Inr t"
      using t(1) True by simp
    moreover have "rb_inorder (rb_plug ?n up)
        = rb_inorder (rb_plug node (RFrame d RED px sib # RFrame LeftChild gc gx uncle # up))"
      by (cases d) (simp_all add: rb_plug_inorder)
    ultimately show ?thesis
      using t by simp
  next
    case False
    then have ub: "color_of uncle = BLACK" by simp
    define t where "t = (case d of
        LeftChild \<Rightarrow> RBNode BLACK node px (RBNode RED sib gx uncle)
      | RightChild \<Rightarrow> RBNode BLACK (RBNode RED sib px nl) nx (RBNode RED nr gx uncle))"
    have run: "fix_insert node (RFrame d RED px sib # RFrame LeftChild gc gx uncle # up)
        = Inr (paint BLACK (rb_plug t up))"
      using ub node by (cases d) (simp_all add: t_def)
    have tv: "no_red_red t" "inv_bh t" "bheight t = Suc ?h" "color_of t = BLACK"
      using "4.prems"(2,3) f ub node by (cases d; simp add: t_def)+
    have ti: "rb_inorder (rb_plug t up)
        = rb_inorder (rb_plug node (RFrame d RED px sib # RFrame LeftChild gc gx uncle # up))"
      using node by (cases d) (simp_all add: rb_plug_inorder t_def)
    from rb_plug_valid[OF tv(1,2,3) f(9)] tv(4)
    have pv: "no_red_red (rb_plug t up)" "inv_bh (rb_plug t up)"
      by auto
    have "color_of (rb_plug t up) = BLACK"
      using rb_plug_root_black[OF f(9), of t] tv(4) by (cases up) auto
    with run pv ti show ?thesis
      by (simp add: paint_BLACK_id)
  qed
next
  case (5 node d px sib gc gx uncle up)
  from "5.prems"(1) obtain nl nx nr where node: "node = RBNode RED nl nx nr"
    by (cases node) auto
  let ?h = "bheight node"
  from "5.prems"(4) have f: "no_red_red sib" "inv_bh sib" "bheight sib = ?h" "color_of sib = BLACK"
    "gc = BLACK" "no_red_red uncle" "inv_bh uncle" "bheight uncle = ?h" "rpath_ok RED (Suc ?h) up"
    by auto
  let ?parent = "rb_plug node [RFrame d RED px sib]"
  show ?case
  proof (cases "color_of uncle = RED")
    case True
    let ?n = "RBNode RED (paint BLACK uncle) gx (paint BLACK ?parent)"
    have "color_of ?n = RED" by simp
    moreover have "no_red_red ?n"
      using "5.prems"(2) f by (cases d) (auto simp: no_red_red_paint_BLACK)
    moreover have "inv_bh ?n"
      using "5.prems"(3) f True by (cases d) (auto simp: bheight_paint_BLACK)
    moreover have "rpath_ok RED (bheight ?n) up"
      using f True by (cases d) (auto simp: bheight_paint_BLACK)
    ultimately obtain t where t: "fix_insert ?n up = Inr t" "no_red_red t" "inv_bh t"
      "color_of t = BLACK" "rb_inorder t = rb_inorder (rb_plug ?n up)"
      using "5.IH"[OF refl True] by blast
    have "fix_insert node (RFrame d RED px sib # RFrame RightChild gc gx uncle # up) = Inr t"
      using t(1) True by simp
    moreover have "rb_inorder (rb_plug ?n up)
        = rb_inorder (rb_plug node (RFrame d RED px sib # RFrame RightChild gc gx uncle # up))"
      by (cases d) (simp_all add: rb_plug_inorder)
    ultimately show ?thesis
      using t by simp
  next
    case False
    then have ub: "color_of uncle = BLACK" by simp
    define t where "t = (case d of
        RightChild \<Rightarrow> RBNode BLACK (RBNode RED uncle gx sib) px node
      | LeftChild \<Rightarrow> RBNode BLACK (RBNode RED uncle gx nl) nx (RBNode RED nr px sib))"
    have run: "fix_insert node (RFrame d RED px sib # RFrame RightChild gc gx uncle # up)
        = Inr (paint BLACK (rb_plug t up))"
      using ub node by (cases d) (simp_all add: t_def)
    have tv: "no_red_red t" "inv_bh t" "bheight t = Suc ?h" "color_of t = BLACK"
      using "5.prems"(2,3) f ub node by (cases d; simp add: t_def)+
    have ti: "rb_inorder (rb_plug t up)
        = rb_inorder (rb_plug node (RFrame d RED px sib # RFrame RightChild gc gx uncle # up))"
      using node by (cases d) (simp_all add: rb_plug_inorder t_def)
    from rb_plug_valid[OF tv(1,2,3) f(9)] tv(4)
    have pv: "no_red_red (rb_plug t up)" "inv_bh (rb_plug t up)"
      by auto
    have "color_of (rb_plug t up) = BLACK"
      using rb_plug_root_black[OF f(9), of t] tv(4) by (cases up) auto
    with run pv ti show ?thesis
      by (simp add: paint_BLACK_id)
  qed
qed

lemma rb_descend_props:
  "no_red_red t \<Longrightarrow> inv_bh t \<Longrightarrow> rpath_ok RED (bheight t) path \<Longrightarrow>
   (color_of t = RED \<longrightarrow> top_color RED path = BLACK) \<Longrightarrow>
   sorted (map k (rb_inorder t)) \<Longrightarrow>
   \<forall>y\<in>set (rb_before path). k y \<le> k v \<Longrightarrow> \<forall>y\<in>set (rb_after path). k v < k y \<Longrightarrow>
     rpath_ok RED 0 (rb_descend k v t path)
     \<and> rb_before (rb_descend k v t path) @ rb_after (rb_descend k v t path)
         = rb_before path @ rb_inorder t @ rb_after path
     \<and> (\<forall>y\<in>set (rb_before (rb_descend k v t path)). k y \<le> k v)
     \<and> (\<forall>y\<in>set (rb_after (rb_descend k v t path)). k v < k y)"
proof (induction t arbitrary: path)
  case NIL
  then show ?case by simp
next
  case (RBNode c l x r)
  from RBNode.prems(5) have s: "sorted (map k (rb_inorder l))" "sorted (map k (rb_inorder r))"
    "\<forall>a\<in>set (rb_inorder l). k a \<le> k x" "\<forall>b\<in>set (rb_inorder r). k x \<le> k b"
    using sorted_mid_iff[of k "rb_inorder l" x "rb_inorder r"] by auto
  from RBNode.prems(1,2) have ok: "no_red_red l" "no_red_red r" "inv_bh l" "inv_bh r"
    "bheight l = bheight r" "c = RED \<longrightarrow> color_of l = BLACK \<and> color_of r = BLACK"
    by auto
  show ?case
  proof (cases "k v < k x")
    case True
    let ?p = "RFrame LeftChild c x r # path"
    have a: "rpath_ok RED (bheight l) ?p"
      using ok RBNode.prems(3,4) by auto
    have a': "color_of l = RED \<longrightarrow> top_color RED ?p = BLACK"
      using ok by auto
    have b: "\<forall>y\<in>set (rb_before ?p). k y \<le> k v"
      using RBNode.prems(6) by simp
    have c: "\<forall>y\<in>set (rb_after ?p). k v < k y"
      using RBNode.prems(7) s(4) True by auto
    have d: "rb_descend k v (RBNode c l x r) path = rb_descend k v l ?p"
      using True by simp
    show ?thesis
      unfolding d using RBNode.IH(1)[OF ok(1) ok(3) a a' s(1) b c] by simp
  next
    case False
    let ?p = "RFrame RightChild c x l # path"
    have a: "rpath_ok RED (bheight r) ?p"
      using ok RBNode.prems(3,4) by auto
    have a': "color_of r = RED \<longrightarrow> top_color RED ?p = BLACK"
      using ok by auto
    have b: "\<forall>y\<in>set (rb_before ?p). k y \<le> k v"
      using RBNode.prems(6) s(3) False by auto
    have c: "\<forall>y\<in>set (rb_after ?p). k v < k y"
      using RBNode.prems(7) by simp
    have d: "rb_descend k v (RBNode c l x r) path = rb_descend k v r ?p"
      using False by simp
    show ?thesis
      unfolding d using RBNode.IH(2)[OF ok(2) ok(4) a a' s(2) b c] by simp
  qed
qed

definition rb_valid :: "'a rbt \<Rightarrow> bool" where
  "rb_valid t \<longleftrightarrow> color_of t = BLACK \<and> no_red_red t \<and> inv_bh t"

lemma rbt_insert_ok:
  assumes "rb_valid t" "sorted (map k (rb_inorder t))"
  shows "\<exists>t'. rbt_insert k v t = Inr t' \<and> rb_valid t'
           \<and> rb_inorder t' = place k v (rb_inorder t)"
proof -
  let ?p = "rb_descend k v t []"
  from assms(1) have v: "color_of t = BLACK" "no_red_red t" "inv_bh t"
    by (auto simp: rb_valid_def)
  from rb_descend_props[OF v(2,3) _ _ assms(2), of "[]" v] v(1)
  have p: "rpath_ok RED 0 ?p" "rb_before ?p @ rb_after ?p = rb_inorder t"
    "\<forall>y\<in>set (rb_before ?p). k y \<le> k v" "\<forall>y\<in>set (rb_after ?p). k v < k y"
    by auto
  from fix_insert_ok[of "RBNode RED NIL v NIL" ?p] p(1) obtain t' where
    t': "fix_insert (RBNode RED NIL v NIL) ?p = Inr t'" "no_red_red t'" "inv_bh t'"
    "color_of t' = BLACK" "rb_inorder t' = rb_inorder (rb_plug (RBNode RED NIL v NIL) ?p)"
    by auto
  have "rb_inorder t' = rb_before ?p @ v # rb_after ?p"
    using t'(5) by (simp add: rb_plug_inorder)
  also have "\<dots> = place k v (rb_before ?p @ rb_after ?p)"
    using place_between[OF p(3,4)] by simp
  finally show ?thesis
    using t' p(2) by (simp add: rbt_insert_def rb_valid_def)
qed

lemma rbt_run_inserts:
  "rb_valid t \<Longrightarrow> rb_inorder t = sort_key k ys \<Longrightarrow>
     \<exists>t'. rbt_run k (map Ins xs) t = Inr t' \<and> rb_valid t' \<and> rb_inorder t' = sort_key k (ys @ xs)"
proof (induction xs arbitrary: t ys)
  case Nil
  then show ?case by simp
next
  case (Cons x xs)
  from rbt_insert_ok[OF Cons.prems(1), of k x] Cons.prems(2)
  obtain t1 where t1: "rbt_insert k x t = Inr t1" "rb_valid t1"
    "rb_inorder t1 = sort_key k (ys @ [x])"
    by (auto simp: place_sort_key)
  from Cons.IH[OF t1(2,3)] t1(1) show ?case
    by simp
qed

lemma avl_run_inserts:
  "avl_ok t \<Longrightarrow> avl_inorder t = sort_key k ys \<Longrightarrow>
     \<exists>t'. avl_run k (map Ins xs) t = Returned t' \<and> avl_ok t' \<and> avl_inorder t' = sort_key k (ys @ xs)"
proof (induction xs arbitrary: t ys)
  case Nil
  then show ?case by simp
next
  case (Cons x xs)
  from avl_insert_ok[OF Cons.prems(1), of k x] Cons.prems(2)
  obtain t1 where t1: "avl_insert k x t = Returned t1" "avl_ok t1"
    "avl_inorder t1 = sort_key k (ys @ [x])"
    by (auto simp: place_sort_key)
  from Cons.IH[OF t1(2,3)] t1(1) show ?case
    by simp
qed

text \<open>
  C4, as the code has it: inserting the entities of a list one by one into the empty
  red-black tree and into the empty AVL tree raises nothing, and the in-order sequence
  (left subtree, node, right subtree) of either tree is the list sorted ascending by the
  key, entities of equal key in the order of their insertion. The same holds of the
  unbalanced tree when the interpreter allows its recursive insert at least as many
  nested calls as there are entities before the last one; the iterator of that tree then
  yields every entity once (root first, which is not the ascending order).
\<close>

theorem inorder_is_sorted_input:
  "(length xs \<le> Suc d \<longrightarrow>
      (\<exists>t. bst_run d k xs BNil = Returned t \<and> bst_inorder t = sort_key k xs
          \<and> mset (map bst_song (node_depth_first_iter [t])) = mset xs))
   \<and> (\<exists>t. rbt_run k (map Ins xs) NIL = Inr t \<and> rb_inorder t = sort_key k xs)
   \<and> (\<exists>t. avl_run k (map Ins xs) ANil = Returned t \<and> avl_inorder t = sort_key k xs)"
proof (intro conjI impI)
  assume "length xs \<le> Suc d"
  with bst_run_inserts[of BNil k "[]" xs d]
  obtain t where t: "bst_run d k xs BNil = Returned t" "bst_inorder t = sort_key k xs"
    by auto
  have "mset (map bst_song (node_depth_first_iter [t])) = mset (bst_inorder t)"
    by (simp add: node_depth_first_iter_preorder mset_bst_preorder)
  with t show "\<exists>t. bst_run d k xs BNil = Returned t \<and> bst_inorder t = sort_key k xs
          \<and> mset (map bst_song (node_depth_first_iter [t])) = mset xs"
    by simp
next
  show "\<exists>t. rbt_run k (map Ins xs) NIL = Inr t \<and> rb_inorder t = sort_key k xs"
    using rbt_run_inserts[of NIL k "[]" xs] by (auto simp: rb_valid_def)
next
  show "\<exists>t. avl_run k (map Ins xs) ANil = Returned t \<and> avl_inorder t = sort_key k xs"
    using avl_run_inserts[of ANil k "[]" xs] by auto
qed

theorem inorder_is_sorted_input_witness:
  "(\<exists>t. bst_run 2 (\<lambda>x. x) [2, 1, 2 :: int] BNil = Returned t \<and> bst_inorder t = [1, 2, 2]
          \<and> mset (map bst_song (node_depth_first_iter [t])) = {#2, 1, 2#})
   \<and> (\<exists>t. rbt_run (\<lambda>x. x) [Ins 2, Ins 1, Ins (2 :: int)] NIL = Inr t \<and> rb_inorder t = [1, 2, 2])
   \<and> (\<exists>t. avl_run (\<lambda>x. x) [Ins 2, Ins 1, Ins (2 :: int)] ANil = Returned t \<and> avl_inorder t = [1, 2, 2])"
  using inorder_is_sorted_input[of "[2, 1, 2 :: int]" 2 "\<lambda>x. x"]
  by simp

text \<open>
  The iterator of the unbalanced tree on the tree that 2, 1, 3 build: it yields 2, 1, 3,
  while the in-order sequence is 1, 2, 3.
\<close>

lemma iterator_is_preorder:
  "bst_run 1 (\<lambda>x. x) [2, 1, 3 :: int] BNil = Returned (BNode (BNode BNil 1 BNil) 2 (BNode BNil 3 BNil))
   \<and> map bst_song (node_depth_first_iter [BNode (BNode BNil 1 BNil) 2 (BNode BNil 3 BNil)])
       = [2, 1, 3 :: int]
   \<and> bst_inorder (BNode (BNode BNil 1 BNil) 2 (BNode BNil 3 BNil)) = [1, 2, 3 :: int]"
  by (simp add: bst_insert_def)

text \<open>
  Entities inserted in ascending order hang in one chain to the right, and the insert
  goes down the whole chain, one nested call for every node.
\<close>

fun right_spine :: "'a list \<Rightarrow> 'a bst" where
  "right_spine [] = BNil"
| "right_spine (x # xs) = BNode BNil x (right_spine xs)"

lemma bst_inorder_right_spine: "bst_inorder (right_spine xs) = xs"
  by (induction xs) simp_all

lemma right_spine_insert:
  "xs \<noteq> [] \<Longrightarrow> \<forall>y\<in>set xs. k y \<le> k x \<Longrightarrow>
     bst_insert_recursive d k (right_spine xs) x =
       (if length xs \<le> d then Inr (right_spine (xs @ [x])) else Inl RecursionError)"
proof (induction xs arbitrary: d)
  case Nil
  then show ?case by simp
next
  case (Cons y ys)
  show ?case
  proof (cases d)
    case 0
    then show ?thesis by simp
  next
    case (Suc d')
    show ?thesis
    proof (cases ys)
      case Nil
      with Suc Cons.prems show ?thesis by (simp add: not_less)
    next
      case (Cons z zs)
      with Cons.IH[of d'] Cons.prems Suc show ?thesis
        by (simp add: not_less)
    qed
  qed
qed

lemma bst_run_snoc:
  "bst_run d k (xs @ [x]) t =
     (case bst_run d k xs t of Raised e t' \<Rightarrow> Raised e t' | Returned t' \<Rightarrow> bst_insert d k x t')"
  by (induction xs arbitrary: t) (simp_all split: outcome.splits)

lemma bst_insert_right_spine:
  "\<forall>y\<in>set xs. k y \<le> k x \<Longrightarrow>
     bst_insert d k x (right_spine xs) =
       (if length xs \<le> d then Returned (right_spine (xs @ [x]))
        else Raised RecursionError (right_spine xs))"
  using right_spine_insert[of xs k x d]
  by (cases xs) (simp_all add: bst_insert_def)

lemma bst_run_ascending:
  "n \<le> Suc d \<Longrightarrow> bst_run d (\<lambda>x. x) [0..<n] BNil = Returned (right_spine [0..<n])"
proof (induction n)
  case 0
  then show ?case by simp
next
  case (Suc n)
  then show ?case
    by (simp add: bst_run_snoc bst_insert_right_spine)
qed

text \<open>
  Whatever number \<open>d\<close> of nested calls the interpreter allows, inserting the \<open>d + 2\<close>
  entities 0, 1, \<dots>, \<open>d + 1\<close> in this order into the empty unbalanced tree does not
  succeed: the last insert raises RecursionError and the tree keeps the first \<open>d + 1\<close>
  entities only, so its in-order sequence is not the sorted input.
\<close>

theorem bst_ascending_inserts_recursion_error:
  "\<forall>d. \<exists>t. bst_run d (\<lambda>x. x) [0..<d + 2] BNil = Raised RecursionError t
          \<and> bst_inorder t = [0..<d + 1]
          \<and> bst_inorder t \<noteq> sort_key (\<lambda>x. x) [0..<d + 2]"
proof
  fix d :: nat
  have "bst_run d (\<lambda>x. x) [0..<Suc d] BNil = Returned (right_spine [0..<Suc d])"
    by (rule bst_run_ascending) simp
  then have "bst_run d (\<lambda>x. x) ([0..<Suc d] @ [Suc d]) BNil
               = Raised RecursionError (right_spine [0..<Suc d])"
    by (simp only: bst_run_snoc) (simp add: bst_insert_right_spine)
  moreover have "length (bst_inorder (right_spine [0..<Suc d])) \<noteq> length (sort_key (\<lambda>x. x) [0..<d + 2])"
    by (simp add: bst_inorder_right_spine)
  then have "bst_inorder (right_spine [0..<Suc d]) \<noteq> sort_key (\<lambda>x. x) [0..<d + 2]"
    by metis
  ultimately show "\<exists>t. bst_run d (\<lambda>x. x) [0..<d + 2] BNil = Raised RecursionError t
          \<and> bst_inorder t = [0..<d + 1]
          \<and> bst_inorder t \<noteq> sort_key (\<lambda>x. x) [0..<d + 2]"
    by (intro exI[of _ "right_spine [0..<Suc d]"]) (simp add: bst_inorder_right_spine)
qed

section \<open>The red-black invariants under insert and delete\<close>

text \<open>
  In \<^verbatim>\<open>fix_delete\<close> the subtree in focus is one black node short of what its place
  expects: its path is well formed for the black height of the focus plus one.
\<close>

lemma bheight_0_black: "inv_bh t \<Longrightarrow> no_red_red t \<Longrightarrow> bheight t = 0 \<Longrightarrow> color_of t = BLACK \<Longrightarrow> t = NIL"
  by (cases t) auto

lemma red_sibling_left_ok:
  assumes "no_red_red sibling" "inv_bh sibling" "bheight sibling = E"
    "pc = RED \<longrightarrow> color_of sibling = BLACK \<and> top_color RED up = BLACK"
    "rpath_ok RED (E + (if pc = BLACK then 1 else 0)) up"
  shows "\<exists>pc' s up'. red_sibling_left x pc px sibling up = Inr (pc', s, up')
           \<and> no_red_red s \<and> inv_bh s \<and> bheight s = E \<and> color_of s = BLACK
           \<and> (pc' = RED \<longrightarrow> top_color RED up' = BLACK)
           \<and> rpath_ok RED (E + (if pc' = BLACK then 1 else 0)) up'
           \<and> rb_inorder (rb_plug (RBNode pc' x px s) up') = rb_inorder (rb_plug (RBNode pc x px sibling) up)"
proof (cases "color_of sibling = RED")
  case True
  then obtain sl sx sr where s: "sibling = RBNode RED sl sx sr"
    by (cases sibling) auto
  with assms have "pc = BLACK" by auto
  with s assms show ?thesis
    by (auto simp: red_sibling_left_def rb_plug_inorder)
next
  case False
  with assms show ?thesis
    by (auto simp: red_sibling_left_def)
qed

lemma red_sibling_right_ok:
  assumes "no_red_red sibling" "inv_bh sibling" "bheight sibling = E"
    "pc = RED \<longrightarrow> color_of sibling = BLACK \<and> top_color RED up = BLACK"
    "rpath_ok RED (E + (if pc = BLACK then 1 else 0)) up"
  shows "\<exists>pc' s up'. red_sibling_right x pc px sibling up = Inr (pc', s, up')
           \<and> no_red_red s \<and> inv_bh s \<and> bheight s = E \<and> color_of s = BLACK
           \<and> (pc' = RED \<longrightarrow> top_color RED up' = BLACK)
           \<and> rpath_ok RED (E + (if pc' = BLACK then 1 else 0)) up'
           \<and> rb_inorder (rb_plug (RBNode pc' s px x) up') = rb_inorder (rb_plug (RBNode pc sibling px x) up)"
proof (cases "color_of sibling = RED")
  case True
  then obtain sl sx sr where s: "sibling = RBNode RED sl sx sr"
    by (cases sibling) auto
  with assms have "pc = BLACK" by auto
  with s assms show ?thesis
    by (auto simp: red_sibling_right_def rb_plug_inorder)
next
  case False
  with assms show ?thesis
    by (auto simp: red_sibling_right_def)
qed

lemma red_nephew_left_ok:
  assumes "no_red_red x" "inv_bh x" "no_red_red sl" "no_red_red sr" "inv_bh sl" "inv_bh sr"
    "bheight sl = bheight x" "bheight sr = bheight x"
    "\<not> (color_of sl = BLACK \<and> color_of sr = BLACK)"
  shows "\<exists>t. red_nephew_left x pc px (RBNode BLACK sl sx sr) = Inr t
           \<and> no_red_red t \<and> inv_bh t
           \<and> bheight t = Suc (bheight x) + (if pc = BLACK then 1 else 0)
           \<and> color_of t = pc
           \<and> rb_inorder t = rb_inorder x @ px # rb_inorder (RBNode BLACK sl sx sr)"
proof (cases "color_of sr = BLACK")
  case True
  with assms(9) obtain a b c where sl: "sl = RBNode RED a b c"
    by (cases sl) auto
  with True assms show ?thesis
    by (auto simp: red_nephew_left_def no_red_red_paint_BLACK bheight_paint_BLACK)
next
  case False
  then obtain a b c where sr: "sr = RBNode RED a b c"
    by (cases sr) auto
  with assms show ?thesis
    by (auto simp: red_nephew_left_def)
qed

lemma red_nephew_right_ok:
  assumes "no_red_red x" "inv_bh x" "no_red_red sl" "no_red_red sr" "inv_bh sl" "inv_bh sr"
    "bheight sl = bheight x" "bheight sr = bheight x"
    "\<not> (color_of sr = BLACK \<and> color_of sl = BLACK)"
  shows "\<exists>t. red_nephew_right x pc px (RBNode BLACK sl sx sr) = Inr t
           \<and> no_red_red t \<and> inv_bh t
           \<and> bheight t = Suc (bheight x) + (if pc = BLACK then 1 else 0)
           \<and> color_of t = pc
           \<and> rb_inorder t = rb_inorder (RBNode BLACK sl sx sr) @ px # rb_inorder x"
proof (cases "color_of sl = BLACK")
  case True
  with assms(9) obtain a b c where sr: "sr = RBNode RED a b c"
    by (cases sr) auto
  with True assms show ?thesis
    by (auto simp: red_nephew_right_def no_red_red_paint_BLACK bheight_paint_BLACK)
next
  case False
  then obtain a b c where sl: "sl = RBNode RED a b c"
    by (cases sl) auto
  with assms show ?thesis
    by (auto simp: red_nephew_right_def)
qed

lemma no_red_red_black: "color_of x = BLACK \<Longrightarrow> no_red_red (paint BLACK x) \<Longrightarrow> no_red_red x"
  by (simp add: paint_BLACK_id)

lemma bheight_pos_node: "0 < bheight t \<Longrightarrow> \<exists>c l x r. t = RBNode c l x r"
  by (cases t) auto

lemma fix_delete_ok:
  "no_red_red (paint BLACK x) \<Longrightarrow> inv_bh x \<Longrightarrow> rpath_ok RED (Suc (bheight x)) path \<Longrightarrow>
     \<exists>t. fix_delete x path = Inr t \<and> no_red_red t \<and> inv_bh t \<and> color_of t = BLACK
       \<and> rb_inorder t = rb_inorder (rb_plug x path)"
proof (induction x path rule: fix_delete.induct)
  case (1 x)
  then show ?case by simp
next
  case (2 x pc px sibling up)
  let ?path = "RFrame LeftChild pc px sibling # up"
  show ?case
  proof (cases "color_of x = RED")
    case True
    have "bheight (paint BLACK x) = Suc (bheight x)"
      using True by (simp add: bheight_paint_BLACK)
    from rb_plug_valid[OF "2.prems"(1) _ this "2.prems"(3)] "2.prems"(2)
      rb_plug_root_black[OF "2.prems"(3), of "paint BLACK x"] True
    show ?thesis
      by (simp add: rb_plug_inorder)
  next
    case False
    then have xb: "color_of x = BLACK" by simp
    from no_red_red_black[OF xb "2.prems"(1)] have xv: "no_red_red x" .
    let ?E = "Suc (bheight x)"
    from "2.prems"(3) have f: "no_red_red sibling" "inv_bh sibling" "bheight sibling = ?E"
      "pc = RED \<longrightarrow> color_of sibling = BLACK \<and> top_color RED up = BLACK"
      "rpath_ok RED (?E + (if pc = BLACK then 1 else 0)) up"
      by auto
    from red_sibling_left_ok[OF f, of x px] obtain pc' s up' where
      rs: "red_sibling_left x pc px sibling up = Inr (pc', s, up')"
      and s: "no_red_red s" "inv_bh s" "bheight s = ?E" "color_of s = BLACK"
      and up': "pc' = RED \<longrightarrow> top_color RED up' = BLACK"
        "rpath_ok RED (?E + (if pc' = BLACK then 1 else 0)) up'"
      and io: "rb_inorder (rb_plug (RBNode pc' x px s) up') = rb_inorder (rb_plug (RBNode pc x px sibling) up)"
      by blast
    from s(3,4) obtain sl sx sr where sn: "s = RBNode BLACK sl sx sr"
      by (cases s) auto
    with s have c: "no_red_red sl" "no_red_red sr" "inv_bh sl" "inv_bh sr"
      "bheight sl = bheight x" "bheight sr = bheight x"
      by auto
    show ?thesis
    proof (cases "color_of sl = BLACK \<and> color_of sr = BLACK")
      case True
      let ?n = "RBNode pc' x px (RBNode RED sl sx sr)"
      have "no_red_red (paint BLACK ?n)" "inv_bh ?n"
        using xv c True "2.prems"(2) by auto
      moreover have "rpath_ok RED (Suc (bheight ?n)) up'"
        using up'(2) by (cases pc') auto
      ultimately obtain t where t: "fix_delete ?n up' = Inr t" "no_red_red t" "inv_bh t"
        "color_of t = BLACK" "rb_inorder t = rb_inorder (rb_plug ?n up')"
        using "2.IH"[OF False rs refl refl sn True] by blast
      have "fix_delete x ?path = Inr t"
        using False rs sn True t(1) by simp
      moreover have "rb_inorder (rb_plug ?n up') = rb_inorder (rb_plug x ?path)"
        using io sn by (simp add: rb_plug_inorder)
      ultimately show ?thesis
        using t by simp
    next
      case nb: False
      from red_nephew_left_ok[OF xv "2.prems"(2) c nb, of pc' px sx] obtain t where
        t: "red_nephew_left x pc' px (RBNode BLACK sl sx sr) = Inr t" "no_red_red t" "inv_bh t"
        "bheight t = ?E + (if pc' = BLACK then 1 else 0)" "color_of t = pc'"
        "rb_inorder t = rb_inorder x @ px # rb_inorder (RBNode BLACK sl sx sr)"
        by auto
      have run: "fix_delete x ?path = Inr (paint BLACK (rb_plug t up'))"
        using False rs sn t(1) by (simp add: nb del: not_RED not_BLACK de_Morgan_conj)
      from rb_plug_valid[OF t(2,3,4) up'(2)] t(5) up'(1)
      have pv: "no_red_red (rb_plug t up')" "inv_bh (rb_plug t up')"
        by auto
      have "rb_inorder (rb_plug t up') = rb_inorder (rb_plug x ?path)"
        using io t(6) sn by (simp add: rb_plug_inorder)
      with run pv show ?thesis
        by (simp add: no_red_red_paint_BLACK)
    qed
  qed
next
  case (3 x pc px sibling up)
  let ?path = "RFrame RightChild pc px sibling # up"
  show ?case
  proof (cases "color_of x = RED")
    case True
    have "bheight (paint BLACK x) = Suc (bheight x)"
      using True by (simp add: bheight_paint_BLACK)
    from rb_plug_valid[OF "3.prems"(1) _ this "3.prems"(3)] "3.prems"(2)
      rb_plug_root_black[OF "3.prems"(3), of "paint BLACK x"] True
    show ?thesis
      by (simp add: rb_plug_inorder)
  next
    case False
    then have xb: "color_of x = BLACK" by simp
    from no_red_red_black[OF xb "3.prems"(1)] have xv: "no_red_red x" .
    let ?E = "Suc (bheight x)"
    from "3.prems"(3) have f: "no_red_red sibling" "inv_bh sibling" "bheight sibling = ?E"
      "pc = RED \<longrightarrow> color_of sibling = BLACK \<and> top_color RED up = BLACK"
      "rpath_ok RED (?E + (if pc = BLACK then 1 else 0)) up"
      by auto
    from red_sibling_right_ok[OF f, of x px] obtain pc' s up' where
      rs: "red_sibling_right x pc px sibling up = Inr (pc', s, up')"
      and s: "no_red_red s" "inv_bh s" "bheight s = ?E" "color_of s = BLACK"
      and up': "pc' = RED \<longrightarrow> top_color RED up' = BLACK"
        "rpath_ok RED (?E + (if pc' = BLACK then 1 else 0)) up'"
      and io: "rb_inorder (rb_plug (RBNode pc' s px x) up') = rb_inorder (rb_plug (RBNode pc sibling px x) up)"
      by blast
    from s(3,4) obtain sl sx sr where sn: "s = RBNode BLACK sl sx sr"
      by (cases s) auto
    with s have c: "no_red_red sl" "no_red_red sr" "inv_bh sl" "inv_bh sr"
      "bheight sl = bheight x" "bheight sr = bheight x"
      by auto
    show ?thesis
    proof (cases "color_of sr = BLACK \<and> color_of sl = BLACK")
      case True
      let ?n = "RBNode pc' (RBNode RED sl sx sr) px x"
      have "no_red_red (paint BLACK ?n)" "inv_bh ?n"
        using xv c True "3.prems"(2) by auto
      moreover have "rpath_ok RED (Suc (bheight ?n)) up'"
        using up'(2) c by (cases pc') auto
      ultimately obtain t where t: "fix_delete ?n up' = Inr t" "no_red_red t" "inv_bh t"
        "color_of t = BLACK" "rb_inorder t = rb_inorder (rb_plug ?n up')"
        using "3.IH"[OF False rs refl refl sn True] by blast
      have "fix_delete x ?path = Inr t"
        using False rs sn True t(1) by simp
      moreover have "rb_inorder (rb_plug ?n up') = rb_inorder (rb_plug x ?path)"
        using io sn by (simp add: rb_plug_inorder)
      ultimately show ?thesis
        using t by simp
    next
      case nb: False
      from red_nephew_right_ok[OF xv "3.prems"(2) c nb, of pc' px sx] obtain t where
        t: "red_nephew_right x pc' px (RBNode BLACK sl sx sr) = Inr t" "no_red_red t" "inv_bh t"
        "bheight t = ?E + (if pc' = BLACK then 1 else 0)" "color_of t = pc'"
        "rb_inorder t = rb_inorder (RBNode BLACK sl sx sr) @ px # rb_inorder x"
        by auto
      have run: "fix_delete x ?path = Inr (paint BLACK (rb_plug t up'))"
        using False rs sn t(1) by (simp add: nb del: not_RED not_BLACK de_Morgan_conj)
      from rb_plug_valid[OF t(2,3,4) up'(2)] t(5) up'(1)
      have pv: "no_red_red (rb_plug t up')" "inv_bh (rb_plug t up')"
        by auto
      have "rb_inorder (rb_plug t up') = rb_inorder (rb_plug x ?path)"
        using io t(6) sn by (simp add: rb_plug_inorder)
      with run pv show ?thesis
        by (simp add: no_red_red_paint_BLACK)
    qed
  qed
qed

lemma rb_descend_path_ok:
  "no_red_red t \<Longrightarrow> inv_bh t \<Longrightarrow> rpath_ok RED (bheight t) path \<Longrightarrow>
   (color_of t = RED \<longrightarrow> top_color RED path = BLACK) \<Longrightarrow>
     rpath_ok RED 0 (rb_descend k v t path)"
proof (induction t arbitrary: path)
  case NIL
  then show ?case by simp
next
  case (RBNode c l x r)
  from RBNode.prems(1,2) have ok: "no_red_red l" "no_red_red r" "inv_bh l" "inv_bh r"
    "bheight l = bheight r" "c = RED \<longrightarrow> color_of l = BLACK \<and> color_of r = BLACK"
    by auto
  show ?case
  proof (cases "k v < k x")
    case True
    let ?p = "RFrame LeftChild c x r # path"
    have a: "rpath_ok RED (bheight l) ?p"
      using ok RBNode.prems(3,4) by auto
    have a': "color_of l = RED \<longrightarrow> top_color RED ?p = BLACK"
      using ok by auto
    show ?thesis
      using RBNode.IH(1)[OF ok(1) ok(3) a a'] True by simp
  next
    case False
    let ?p = "RFrame RightChild c x l # path"
    have a: "rpath_ok RED (bheight r) ?p"
      using ok RBNode.prems(3,4) by auto
    have a': "color_of r = RED \<longrightarrow> top_color RED ?p = BLACK"
      using ok by auto
    show ?thesis
      using RBNode.IH(2)[OF ok(2) ok(4) a a'] False by simp
  qed
qed

lemma rbt_insert_valid:
  assumes "rb_valid t"
  shows "\<exists>t'. rbt_insert k v t = Inr t' \<and> rb_valid t'"
proof -
  from assms have v: "color_of t = BLACK" "no_red_red t" "inv_bh t"
    by (auto simp: rb_valid_def)
  from rb_descend_path_ok[OF v(2,3), of "[]" k v] v(1)
  have "rpath_ok RED 0 (rb_descend k v t [])"
    by simp
  with fix_insert_ok[of "RBNode RED NIL v NIL" "rb_descend k v t []"] show ?thesis
    by (auto simp: rbt_insert_def rb_valid_def)
qed

lemma rbt_search_path_valid:
  "rbt_search_path k s t path = Some (z, p) \<Longrightarrow>
   no_red_red t \<Longrightarrow> inv_bh t \<Longrightarrow> rpath_ok RED (bheight t) path \<Longrightarrow>
   (color_of t = RED \<longrightarrow> top_color RED path = BLACK) \<Longrightarrow>
     z \<noteq> NIL \<and> no_red_red z \<and> inv_bh z \<and> rpath_ok RED (bheight z) p
     \<and> (color_of z = RED \<longrightarrow> top_color RED p = BLACK)
     \<and> rb_plug z p = rb_plug t path"
proof (induction t arbitrary: path)
  case NIL
  then show ?case by simp
next
  case (RBNode c l x r)
  from RBNode.prems(2,3) have ok: "no_red_red l" "no_red_red r" "inv_bh l" "inv_bh r"
    "bheight l = bheight r" "c = RED \<longrightarrow> color_of l = BLACK \<and> color_of r = BLACK"
    by auto
  show ?case
  proof (cases "k x = k s")
    case True
    with RBNode.prems show ?thesis by auto
  next
    case ne: False
    show ?thesis
    proof (cases "k s < k x")
      case True
      let ?p = "RFrame LeftChild c x r # path"
      have a: "rpath_ok RED (bheight l) ?p"
        using ok RBNode.prems(4,5) by auto
      have a': "color_of l = RED \<longrightarrow> top_color RED ?p = BLACK"
        using ok by auto
      have "rbt_search_path k s l ?p = Some (z, p)"
        using RBNode.prems(1) ne True by simp
      from RBNode.IH(1)[OF this ok(1) ok(3) a a'] show ?thesis
        by simp
    next
      case False
      let ?p = "RFrame RightChild c x l # path"
      have a: "rpath_ok RED (bheight r) ?p"
        using ok RBNode.prems(4,5) by auto
      have a': "color_of r = RED \<longrightarrow> top_color RED ?p = BLACK"
        using ok by auto
      have "rbt_search_path k s r ?p = Some (z, p)"
        using RBNode.prems(1) ne False by simp
      from RBNode.IH(2)[OF this ok(2) ok(4) a a'] show ?thesis
        by simp
    qed
  qed
qed

lemma rb_minimum_append:
  "t \<noteq> NIL \<Longrightarrow> rb_minimum t q = (fst (rb_minimum t []), snd (rb_minimum t []) @ q)"
proof (induction t arbitrary: q)
  case NIL
  then show ?case by simp
next
  case (RBNode c l x r)
  show ?case
  proof (cases l)
    case NIL
    then show ?thesis by simp
  next
    case (RBNode lc ll lx lr)
    then have "l \<noteq> NIL" by simp
    from RBNode.IH(1)[OF this, of "RFrame LeftChild c x r # q"]
      RBNode.IH(1)[OF this, of "[RFrame LeftChild c x r]"] RBNode
    show ?thesis by simp
  qed
qed

lemma rb_minimum_valid:
  "t \<noteq> NIL \<Longrightarrow> no_red_red t \<Longrightarrow> inv_bh t \<Longrightarrow> rpath_ok RED (bheight t) q \<Longrightarrow>
   (color_of t = RED \<longrightarrow> top_color RED q = BLACK) \<Longrightarrow> rb_minimum t q = (y, p) \<Longrightarrow>
     (\<exists>yc yx yr. y = RBNode yc NIL yx yr) \<and> no_red_red y \<and> inv_bh y
     \<and> rpath_ok RED (bheight y) p \<and> (color_of y = RED \<longrightarrow> top_color RED p = BLACK)"
proof (induction t q rule: rb_minimum.induct)
  case (1 c x r path)
  then show ?case by auto
next
  case (2 c lc ll lx lr x r path)
  let ?l = "RBNode lc ll lx lr"
  let ?p = "RFrame LeftChild c x r # path"
  from "2.prems"(2,3) have ok: "no_red_red ?l" "no_red_red r" "inv_bh ?l" "inv_bh r"
    "bheight ?l = bheight r" "c = RED \<longrightarrow> color_of ?l = BLACK \<and> color_of r = BLACK"
    by auto
  have a: "rpath_ok RED (bheight ?l) ?p"
    using ok "2.prems"(4,5) by auto
  have a': "color_of ?l = RED \<longrightarrow> top_color RED ?p = BLACK"
    using ok by auto
  have "rb_minimum ?l ?p = (y, p)"
    using "2.prems"(6) by simp
  from "2.IH"[OF _ ok(1) ok(3) a a' this] show ?case
    by simp
next
  case (3 a)
  then show ?case by simp
qed


lemma rb_minimum_shape:
  "t \<noteq> NIL \<Longrightarrow> \<exists>yc yx yr. fst (rb_minimum t q) = RBNode yc NIL yx yr"
proof (induction t arbitrary: q)
  case NIL
  then show ?case by simp
next
  case (RBNode c l x r)
  then show ?case by (cases l) auto
qed

text \<open>
  Taking a node with a sentinel child out of the tree: its other child \<open>x\<close> takes its
  place, and \<^verbatim>\<open>fix_delete(x)\<close> runs when the node was black.
\<close>

lemma splice_out_valid:
  assumes "no_red_red x" "inv_bh x" "bheight x = 0" "c = RED \<longrightarrow> color_of x = BLACK"
    and "rpath_ok RED (if c = BLACK then 1 else 0) path"
  shows "\<exists>t'. (if c = BLACK then fix_delete x path else Inr (rb_plug x path)) = Inr t'
           \<and> rb_valid t' \<and> rb_inorder t' = rb_inorder (rb_plug x path)"
proof (cases "c = BLACK")
  case True
  with assms(3,5) have "rpath_ok RED (Suc (bheight x)) path"
    by simp
  from fix_delete_ok[OF no_red_red_paint_BLACK[OF assms(1)] assms(2) this] True show ?thesis
    by (auto simp: rb_valid_def)
next
  case False
  then have red: "c = RED" by simp
  with assms have xb: "color_of x = BLACK" by simp
  have p: "rpath_ok RED (bheight x) path"
    using assms(3,5) red by simp
  from rb_plug_valid[OF assms(1,2) refl p] xb
  have "no_red_red (rb_plug x path)" "inv_bh (rb_plug x path)"
    by auto
  moreover have "color_of (rb_plug x path) = BLACK"
    using rb_plug_root_black[OF p, of x] xb by (cases path) auto
  ultimately show ?thesis
    using red by (simp add: rb_valid_def)
qed

lemma rbt_delete_valid:
  assumes "rb_valid t"
  shows "\<exists>t' out. rbt_delete k s t = Inr (t', out) \<and> rb_valid t'"
proof (cases "rbt_search_path k s t []")
  case None
  with assms show ?thesis
    by (simp add: rbt_delete_def)
next
  case (Some zp)
  obtain z path where zp: "zp = (z, path)"
    by (cases zp)
  from assms have v: "color_of t = BLACK" "no_red_red t" "inv_bh t"
    by (auto simp: rb_valid_def)
  from rbt_search_path_valid[OF Some[unfolded zp] v(2,3)] v(1)
  have z: "z \<noteq> NIL" "no_red_red z" "inv_bh z" "rpath_ok RED (bheight z) path"
    "color_of z = RED \<longrightarrow> top_color RED path = BLACK"
    by auto
  from z(1) obtain zc zl zx zr where zn: "z = RBNode zc zl zx zr"
    by (cases z) auto
  with z have c: "no_red_red zl" "no_red_red zr" "inv_bh zl" "inv_bh zr" "bheight zl = bheight zr"
    "zc = RED \<longrightarrow> color_of zl = BLACK \<and> color_of zr = BLACK"
    by auto
  show ?thesis
  proof (cases "zl = NIL")
    case True
    with c zn z(4) have "bheight zr = 0" "rpath_ok RED (if zc = BLACK then 1 else 0) path"
      by auto
    from splice_out_valid[OF c(2,4) this(1) _ this(2)] c(6) True Some zp zn show ?thesis
      by (auto simp: rbt_delete_def)
  next
    case lnn: False
    show ?thesis
    proof (cases "zr = NIL")
      case True
      with c zn z(4) have "bheight zl = 0" "rpath_ok RED (if zc = BLACK then 1 else 0) path"
        by auto
      from splice_out_valid[OF c(1,3) this(1) _ this(2)] c(6) True lnn Some zp zn show ?thesis
        by (auto simp: rbt_delete_def)
    next
      case rnn: False
      obtain y ypath where m: "rb_minimum zr [] = (y, ypath)"
        by (cases "rb_minimum zr []")
      from rb_minimum_shape[OF rnn, of "[]"] m obtain yc yx yr where yn: "y = RBNode yc NIL yx yr"
        by auto
      let ?q = "RFrame RightChild zc yx zl # path"
      have q: "rpath_ok RED (bheight zr) ?q"
        using c z(4,5) zn by auto
      have q': "color_of zr = RED \<longrightarrow> top_color RED ?q = BLACK"
        using c(6) by auto
      have "rb_minimum zr ?q = (y, ypath @ ?q)"
        using rb_minimum_append[OF rnn, of ?q] m by simp
      from rb_minimum_valid[OF rnn c(2,4) q q' this]
      have y: "no_red_red y" "inv_bh y" "rpath_ok RED (bheight y) (ypath @ ?q)"
        by auto
      with yn have "no_red_red yr" "inv_bh yr" "bheight yr = 0" "yc = RED \<longrightarrow> color_of yr = BLACK"
        "rpath_ok RED (if yc = BLACK then 1 else 0) (ypath @ ?q)"
        by auto
      from splice_out_valid[OF this] lnn rnn Some zp zn m yn show ?thesis
        by (auto simp: rbt_delete_def)
    qed
  qed
qed

lemma rbt_run_valid:
  "rb_valid t \<Longrightarrow> \<exists>t'. rbt_run k ops t = Inr t' \<and> rb_valid t'"
proof (induction ops arbitrary: t)
  case Nil
  then show ?case by simp
next
  case (Cons op ops)
  show ?case
  proof (cases op)
    case (Ins x)
    from rbt_insert_valid[OF Cons.prems, of k x] obtain t1 where
      "rbt_insert k x t = Inr t1" "rb_valid t1"
      by blast
    with Cons.IH[OF this(2)] Ins show ?thesis by simp
  next
    case (Del x)
    from rbt_delete_valid[OF Cons.prems, of k x] obtain t1 out where
      "rbt_delete k x t = Inr (t1, out)" "rb_valid t1"
      by blast
    with Cons.IH[OF this(2)] Del show ?thesis by simp
  qed
qed

text \<open>
  The number of black nodes on each path from the root down to a sentinel, path by path
  from left to right.
\<close>

fun black_counts :: "'a rbt \<Rightarrow> nat list" where
  "black_counts NIL = [0]"
| "black_counts (RBNode c l x r) =
     map (\<lambda>n. n + (if c = BLACK then 1 else 0)) (black_counts l @ black_counts r)"

lemma inv_bh_black_counts: "inv_bh t \<Longrightarrow> set (black_counts t) = {bheight t}"
  by (induction t) auto

text \<open>
  C2: every sequence of inserts and deletes, run on the empty red-black tree, runs to the
  end without raising and leaves a tree whose root is black, in which no red node has a
  red child, and in which every path from the root to a sentinel holds the same number of
  black nodes.
\<close>

theorem rbt_invariants_after_ops:
  "\<exists>t. rbt_run k ops NIL = Inr t \<and> color_of t = BLACK \<and> no_red_red t
     \<and> (\<exists>n. set (black_counts t) = {n})"
proof -
  have "rb_valid (NIL :: 'a rbt)"
    by (simp add: rb_valid_def)
  from rbt_run_valid[OF this, of k ops] obtain t where
    "rbt_run k ops NIL = Inr t" "rb_valid t"
    by blast
  then show ?thesis
    using inv_bh_black_counts[of t] by (auto simp: rb_valid_def)
qed

theorem rbt_invariants_after_ops_witness:
  "rbt_run (\<lambda>x. x) [Ins 5, Ins 3, Ins 8, Ins 1, Ins 4, Del 3, Del (5::int)] NIL
     = Inr (RBNode BLACK (RBNode BLACK NIL 1 NIL) 4 (RBNode BLACK NIL 8 NIL))
   \<and> color_of (RBNode BLACK (RBNode BLACK NIL 1 NIL) (4::int) (RBNode BLACK NIL 8 NIL)) = BLACK
   \<and> no_red_red (RBNode BLACK (RBNode BLACK NIL 1 NIL) (4::int) (RBNode BLACK NIL 8 NIL))
   \<and> set (black_counts (RBNode BLACK (RBNode BLACK NIL 1 NIL) (4::int) (RBNode BLACK NIL 8 NIL))) = {2}"
  using rbt_invariants_after_ops[of "\<lambda>x::int. x" "[Ins 5, Ins 3, Ins 8, Ins 1, Ins 4, Del 3, Del 5]"]
  by (simp add: rbt_insert_def rbt_delete_def red_sibling_left_def red_sibling_right_def
      red_nephew_left_def red_nephew_right_def)

section \<open>Comparing Songs, and searching a tree of Songs\<close>







text \<open>
  The playlist the scenario builds: \<open>B\<close>, \<open>A\<close> and \<open>C\<close> added in this order.
\<close>

definition example_playlist :: Playlist where
  "example_playlist =
     \<lparr>name = ''P'', total_time = 470,
      songs_not_sorted = [song_B, song_A, song_C],
      songs = [song_A, song_B, song_C],
      bst = BNode (BNode BNil song_A BNil) song_B (BNode BNil song_C BNil),
      rbt = RBNode BLACK (RBNode RED NIL song_A NIL) song_B (RBNode RED NIL song_C NIL),
      avl = ANode (ANode ANil song_A 1 ANil) song_B 2 (ANode ANil song_C 1 ANil)\<rparr>"

lemma scenario_playlist:
  "(case scenario (Suc d) of
      Inl e \<Rightarrow> False
    | Inr (app, out) \<Rightarrow> playlists app ''P'' = Some example_playlist)"
  by code_simp




end
